theory Spec2Isabelle
  imports Complex_Main "HOL-Library.Word" "HOL-Library.Log_Nat"
begin

unbundle bit_operations_syntax

section \<open>Memory model of the skip-list variant (ML-skiplist/skiplist.cpp)\<close>

text \<open>
  Nodes live in an explicit store indexed by addresses. A pointer value is the null
  pointer, the address of a node, or the address of the forward array inside a node
  (the value of the expression \<open>succ->next\<close> in \<open>sl_add\<close>). A forward reference is a
  pointer value together with its low "mark" bit. Values of type \<open>val_t\<close> are only
  compared, never computed with, so they are integers; \<open>VAL_MIN\<close> and \<open>VAL_MAX\<close> are
  \<open>INT_MIN\<close> and \<open>INT_MAX\<close> of a 32-bit \<open>int\<close>. The \<open>iterations\<close> counter, which only
  counts loop rounds for the benchmark, is left out.
\<close>

type_synonym addr = nat

datatype ptr = Null | Node addr | NextArr addr

type_synonym ref = "ptr \<times> bool"

datatype fault = NullDeref | BadAccess | OutOfBounds | Uninit

definition INT_MAX :: int where
  "INT_MAX = 2147483647"

definition INT_MIN :: int where
  "INT_MIN = - 2147483648"

definition VAL_MAX :: int where
  "VAL_MAX = INT_MAX"

definition VAL_MIN :: int where
  "VAL_MIN = INT_MIN"

definition is_marked :: "ref \<Rightarrow> bool" where
  "is_marked i = snd i"

definition unset_mark :: "ref \<Rightarrow> ref" where
  "unset_mark i = (fst i, False)"

definition set_mark :: "ref \<Rightarrow> ref" where
  "set_mark i = (fst i, True)"

text \<open>
  Modelled from the spec: the declaration of \<open>sl_node_t\<close> (skiplist.h is not among the
  sources). The fields are those the code uses; following the data model of the spec
  (\<open>forward[0..height)\<close>, "height: number of forward-pointer slots this node owns") a
  node allocated with \<open>toplevel\<close> owns exactly \<open>toplevel\<close> forward slots. A slot that
  was never written holds \<open>None\<close>.
\<close>

record sl_node =
  val :: int
  toplevel :: nat
  deleted :: nat
  nexts :: "ref option list"

text \<open>
  The world: the store, the next address \<open>malloc\<close> hands out (addresses are never
  reused; \<open>free\<close> removes the node from the store), the static state \<open>y\<close> of
  \<open>get_rand_level\<close> and the global \<open>levelmax\<close>.
\<close>

record world =
  heap :: "addr \<Rightarrow> sl_node option"
  brk :: addr
  seed :: "32 word"
  levelmax :: nat

definition deref :: "world \<Rightarrow> ptr \<Rightarrow> fault + sl_node" where
  "deref s p = (case p of
      Null \<Rightarrow> Inl NullDeref
    | NextArr a \<Rightarrow> Inl BadAccess
    | Node a \<Rightarrow> (case heap s a of None \<Rightarrow> Inl BadAccess | Some n \<Rightarrow> Inr n))"

text \<open>Dereferencing a raw forward reference whose mark bit is set is a misaligned access.\<close>

definition deref_raw :: "world \<Rightarrow> ref \<Rightarrow> fault + sl_node" where
  "deref_raw s r = (if snd r then Inl BadAccess else deref s (fst r))"

definition read_next :: "world \<Rightarrow> ptr \<Rightarrow> nat \<Rightarrow> fault + ref" where
  "read_next s p i = (case deref s p of
      Inl e \<Rightarrow> Inl e
    | Inr n \<Rightarrow> (if i < length (nexts n)
                then (case nexts n ! i of None \<Rightarrow> Inl Uninit | Some r \<Rightarrow> Inr r)
                else Inl OutOfBounds))"

definition write_next :: "world \<Rightarrow> ptr \<Rightarrow> nat \<Rightarrow> ref \<Rightarrow> fault + world" where
  "write_next s p i r = (case p of
      Null \<Rightarrow> Inl NullDeref
    | NextArr a \<Rightarrow> Inl BadAccess
    | Node a \<Rightarrow> (case heap s a of
          None \<Rightarrow> Inl BadAccess
        | Some n \<Rightarrow> (if i < length (nexts n)
                     then Inr (s\<lparr>heap := (heap s)(a \<mapsto> n\<lparr>nexts := (nexts n)[i := Some r]\<rparr>)\<rparr>)
                     else Inl OutOfBounds)))"

text \<open>
  Modelled from the spec: the macro \<open>ATOMIC_CAS_MB\<close> (skiplist.h is not among the
  sources), a compare-and-swap on one forward slot. Run by a single thread it compares
  the raw slot with the expected raw value and stores the new one when they agree.
\<close>

definition cas_next :: "world \<Rightarrow> ptr \<Rightarrow> nat \<Rightarrow> ref \<Rightarrow> ref \<Rightarrow> fault + bool \<times> world" where
  "cas_next s p i expected new = (case read_next s p i of
      Inl e \<Rightarrow> Inl e
    | Inr cur \<Rightarrow> (if cur = expected
                  then (case write_next s p i new of Inl e \<Rightarrow> Inl e | Inr s' \<Rightarrow> Inr (True, s'))
                  else Inr (False, s)))"

subsection \<open>Level generator\<close>

definition xorshift :: "32 word \<Rightarrow> 32 word" where
  "xorshift y = (let y1 = y XOR push_bit 13 y;
                     y2 = y1 XOR drop_bit 17 y1
                 in y2 XOR push_bit 5 y2)"

function level_loop :: "32 word \<Rightarrow> nat \<Rightarrow> nat" where
  "level_loop temp level =
     (let temp' = drop_bit 1 temp
      in if temp' AND 1 \<noteq> 0 then level_loop temp' (level + 1) else level)"
  by pat_completeness auto
termination
proof (relation "measure (\<lambda>(temp, level). unat temp)")
  show "wf (measure (\<lambda>(temp, level). unat temp))" by simp
next
  fix temp :: "32 word" and level :: nat and x
  assume x: "x = drop_bit 1 temp" and nz: "x AND 1 \<noteq> 0"
  from nz have "x \<noteq> 0" by auto
  with x have "unat temp \<noteq> 0"
    by (auto simp: unat_eq_0)
  moreover have "unat x = drop_bit 1 (unat temp)"
    using x by (simp only: unat_drop_bit_eq)
  then have "unat x = unat temp div 2"
    by (simp add: drop_bit_eq_div)
  ultimately have "unat x < unat temp" by simp
  then show "((x, level + 1), (temp, level)) \<in> measure (\<lambda>(temp, level). unat temp)"
    by simp
qed

definition get_rand_level :: "world \<Rightarrow> nat \<times> world" where
  "get_rand_level s =
     (let y = xorshift (seed s);
          level = level_loop y 1
      in (if level > levelmax s then levelmax s else level, s\<lparr>seed := y\<rparr>))"

subsection \<open>Node and set construction\<close>

text \<open>\<open>malloc\<close> is taken to succeed (its failure ends the process).\<close>

definition sl_new_simple_node :: "world \<Rightarrow> int \<Rightarrow> nat \<Rightarrow> addr \<times> world" where
  "sl_new_simple_node s v t =
     (brk s,
      s\<lparr>heap := (heap s)(brk s \<mapsto> \<lparr>val = v, toplevel = t, deleted = 0, nexts = replicate t None\<rparr>),
        brk := Suc (brk s)\<rparr>)"

text \<open>The loop \<open>for (i = 0; i < levelmax; i++) node->next[i] = next\<close>, over the indices it visits.\<close>

fun store_all :: "world \<Rightarrow> ptr \<Rightarrow> ref \<Rightarrow> nat list \<Rightarrow> fault + world" where
  "store_all s p r [] = Inr s"
| "store_all s p r (i # is) =
     (case write_next s p i r of Inl e \<Rightarrow> Inl e | Inr s' \<Rightarrow> store_all s' p r is)"

definition sl_new_node :: "world \<Rightarrow> int \<Rightarrow> ptr \<Rightarrow> nat \<Rightarrow> fault + addr \<times> world" where
  "sl_new_node s v nxt t =
     (case sl_new_simple_node s v t of (a, s1) \<Rightarrow>
        (case store_all s1 (Node a) (nxt, False) [0..<levelmax s1] of
           Inl e \<Rightarrow> Inl e
         | Inr s2 \<Rightarrow> Inr (a, s2)))"

definition sl_delete_node :: "world \<Rightarrow> addr \<Rightarrow> world" where
  "sl_delete_node s n = s\<lparr>heap := (heap s)(n := None)\<rparr>"

text \<open>The set is its \<open>head\<close> field; the result is the address of the head sentinel.\<close>

definition sl_set_new :: "world \<Rightarrow> fault + addr \<times> world" where
  "sl_set_new s =
     (case sl_new_node s VAL_MAX Null (levelmax s) of
        Inl e \<Rightarrow> Inl e
      | Inr (mx, s1) \<Rightarrow>
          (case sl_new_node s1 VAL_MIN (Node mx) (levelmax s1) of
             Inl e \<Rightarrow> Inl e
           | Inr (mn, s2) \<Rightarrow> Inr (mn, s2)))"

text \<open>The state of a process before its first call: nothing allocated, the seed of the source.\<close>

definition init_world :: "nat \<Rightarrow> world" where
  "init_world lm = \<lparr>heap = (\<lambda>a. None), brk = 0, seed = 2463534242, levelmax = lm\<rparr>"

subsection \<open>Shift table\<close>

text \<open>
  Modelled from the spec: the declaration of \<open>shift_node_t\<close> in skiplist.h (not among
  the sources) is taken to be the one of ML-list/list.h, which the spec describes too.
\<close>

record shift_node =
  count :: int
  delta :: int
  node :: ptr

text \<open>Table accesses \<open>shift_table[k]\<close> with a C \<open>int\<close> index, checked against the allocated size.\<close>

definition tab_get :: "shift_node list \<Rightarrow> int \<Rightarrow> fault + shift_node" where
  "tab_get tbl k = (if 0 \<le> k \<and> k < int (length tbl) then Inr (tbl ! nat k) else Inl OutOfBounds)"

definition tab_set :: "shift_node list \<Rightarrow> int \<Rightarrow> shift_node \<Rightarrow> fault + shift_node list" where
  "tab_set tbl k e = (if 0 \<le> k \<and> k < int (length tbl) then Inr (tbl[nat k := e]) else Inl OutOfBounds)"

definition new_shift_table :: "int \<Rightarrow> shift_node list" where
  "new_shift_table table_size = replicate (nat table_size) \<lparr>count = 0, delta = INT_MAX, node = Null\<rparr>"

text \<open>
  The estimator \<open>spline->GetEstimatedPosition\<close> is an external collaborator: a parameter
  \<open>est\<close> that gives the value of the \<open>double\<close> it returns, as a rational. The conversion of
  the product to \<open>int\<close> truncates towards zero. \<open>bucket\<close> takes the exact product.
\<close>

definition trunc_to_int :: "rat \<Rightarrow> int" where
  "trunc_to_int x = (if 0 \<le> x then \<lfloor>x\<rfloor> else \<lceil>x\<rceil>)"

definition bucket :: "(int \<Rightarrow> rat) \<Rightarrow> int \<Rightarrow> int \<Rightarrow> int" where
  "bucket est table_size v = trunc_to_int (est v * of_int (table_size - 1))"

text \<open>
  The product as the machine computes it, \<open>double * int\<close> in binary64: the \<open>int\<close> converts
  exactly, and the exact product is rounded to the nearest number with a 53-bit
  significand, ties to the even significand (\<open>double_round\<close>; exponents from \<open>-1022\<close>,
  below which the spacing stays \<open>2^-1074\<close>; results beyond the largest \<open>double\<close> are not
  modelled). \<open>log2_floor x\<close> is the exponent of a positive \<open>x\<close>.
\<close>

definition round_even :: "rat \<Rightarrow> int" where
  "round_even y = (let f = \<lfloor>y\<rfloor>; r = y - of_int f
     in if r < 1 / 2 then f else if 1 / 2 < r then f + 1 else if even f then f else f + 1)"

definition log2_floor :: "rat \<Rightarrow> int" where
  "log2_floor x = (case quotient_of x of (a, b) \<Rightarrow>
     (let d = bitlen a - bitlen b in if power_int 2 d \<le> x then d else d - 1))"

definition double_round :: "rat \<Rightarrow> rat" where
  "double_round x = (if x = 0 then 0 else
     (let e = max (log2_floor \<bar>x\<bar>) (- 1022); q = power_int 2 (e - 52)
      in of_int (round_even (x / q)) * q))"

definition dbucket :: "(int \<Rightarrow> rat) \<Rightarrow> int \<Rightarrow> int \<Rightarrow> int" where
  "dbucket est table_size v = trunc_to_int (double_round (est v * of_int (table_size - 1)))"

text \<open>
  The walk of \<open>populate_shift_table\<close>: \<open>while (node->next[0]->next[0] != NULL)\<close>. It
  returns the last node visited and the table. It need not end on a cyclic store. The
  index expression \<open>spline->GetEstimatedPosition(node->val) * (table_size-1)\<close>, converted to
  \<open>int\<close>, is the parameter \<open>ix\<close>, a function of the value of the node.
\<close>

partial_function (option) populate_walk_ix ::
  "world \<Rightarrow> (int \<Rightarrow> int) \<Rightarrow> ptr \<Rightarrow> int \<Rightarrow> shift_node list \<Rightarrow> (fault + ptr \<times> shift_node list) option"
where
  "populate_walk_ix s ix nd j tbl =
     (case read_next s nd 0 of
        Inl e \<Rightarrow> Some (Inl e)
      | Inr r1 \<Rightarrow>
          (if snd r1 then Some (Inl BadAccess)
           else (case read_next s (fst r1) 0 of
              Inl e \<Rightarrow> Some (Inl e)
            | Inr r2 \<Rightarrow>
                (if r2 = (Null, False) then Some (Inr (nd, tbl))
                 else (case deref s (fst r1) of
                    Inl e \<Rightarrow> Some (Inl e)
                  | Inr n \<Rightarrow>
                      (let k = ix (val n);
                           d = j - k
                       in (case tab_get tbl k of
                            Inl e \<Rightarrow> Some (Inl e)
                          | Inr e0 \<Rightarrow>
                              (let e1 = (if d \<le> delta e0 then e0\<lparr>delta := d, node := fst r1\<rparr> else e0);
                                   e2 = e1\<lparr>count := count e1 + 1\<rparr>
                               in populate_walk_ix s ix (fst r1) (j + 1) (tbl[nat k := e2])))))))))"

declare populate_walk_ix.simps [code]

text \<open>The backward fill \<open>for (j = table_size-1; j >= 0; j--)\<close>; the argument is \<open>j + 1\<close>.\<close>

fun backfill :: "shift_node list \<Rightarrow> nat \<Rightarrow> fault + shift_node list" where
  "backfill tbl 0 = Inr tbl"
| "backfill tbl (Suc j) =
     (case tab_get tbl (int j) of
        Inl e \<Rightarrow> Inl e
      | Inr e \<Rightarrow>
          (if count e = 0
           then (case tab_get tbl (int j + 1) of
                   Inl e \<Rightarrow> Inl e
                 | Inr e1 \<Rightarrow> backfill (tbl[j := \<lparr>count = count e1, delta = delta e1 + 1, node = node e1\<rparr>]) j)
           else backfill tbl j))"

definition populate_shift_table_ix ::
  "world \<Rightarrow> addr \<Rightarrow> shift_node list \<Rightarrow> (int \<Rightarrow> int) \<Rightarrow> int \<Rightarrow> (fault + shift_node list) option"
where
  "populate_shift_table_ix s sh tbl ix table_size =
     (case tab_set tbl 0 \<lparr>count = 1, delta = 0, node = Node sh\<rparr> of
        Inl e \<Rightarrow> Some (Inl e)
      | Inr tbl1 \<Rightarrow>
          (case populate_walk_ix s ix (Node sh) 0 tbl1 of
             None \<Rightarrow> None
           | Some (Inl e) \<Rightarrow> Some (Inl e)
           | Some (Inr (nd, tbl2)) \<Rightarrow>
               (case read_next s nd 0 of
                  Inl e \<Rightarrow> Some (Inl e)
                | Inr r \<Rightarrow>
                    (case tab_set tbl2 (table_size - 1) \<lparr>count = 1, delta = 0, node = fst r\<rparr> of
                       Inl e \<Rightarrow> Some (Inl e)
                     | Inr tbl3 \<Rightarrow> Some (backfill tbl3 (nat table_size))))))"

text \<open>The builder with the index of the exact product.\<close>

definition populate_shift_table ::
  "world \<Rightarrow> addr \<Rightarrow> shift_node list \<Rightarrow> (int \<Rightarrow> rat) \<Rightarrow> int \<Rightarrow> (fault + shift_node list) option"
where
  "populate_shift_table s sh tbl est table_size =
     populate_shift_table_ix s sh tbl (bucket est table_size) table_size"

subsection \<open>Search (\<open>fraser_search\<close>)\<close>

text \<open>
  The shortcut start: \<open>while (left->val > val && k-- > 0) left = shift_table[k].node\<close>.
  The table holds unmarked pointers (\<open>unset_mark\<close> of a stored pointer is that pointer).
\<close>

function shortcut :: "world \<Rightarrow> shift_node list \<Rightarrow> int \<Rightarrow> int \<Rightarrow> ptr \<Rightarrow> fault + ptr" where
  "shortcut s tbl v k left =
     (case deref s left of
        Inl e \<Rightarrow> Inl e
      | Inr n \<Rightarrow>
          (if val n > v \<and> k > 0
           then (case tab_get tbl (k - 1) of
                   Inl e \<Rightarrow> Inl e
                 | Inr e \<Rightarrow> shortcut s tbl v (k - 1) (node e))
           else Inr left))"
  by pat_completeness auto
termination
  by (relation "measure (\<lambda>(s, tbl, v, k, left). nat k)") auto

definition shortcut_start ::
  "world \<Rightarrow> (int \<Rightarrow> rat) \<Rightarrow> shift_node list \<Rightarrow> int \<Rightarrow> int \<Rightarrow> fault + ptr"
where
  "shortcut_start s est tbl table_size v =
     (let k = bucket est table_size v
      in (case tab_get tbl k of
            Inl e \<Rightarrow> Inl e
          | Inr e \<Rightarrow> shortcut s tbl v k (node e)))"

text \<open>"Skip a sequence of marked nodes": returns \<open>right\<close> and its unmarked \<open>right_next\<close>.\<close>

partial_function (option) skip_marked :: "world \<Rightarrow> nat \<Rightarrow> ptr \<Rightarrow> (fault + ptr \<times> ptr) option" where
  "skip_marked s i right =
     (case read_next s right i of
        Inl e \<Rightarrow> Some (Inl e)
      | Inr right_next \<Rightarrow>
          (if \<not> is_marked right_next then Some (Inr (right, fst right_next))
           else skip_marked s i (fst (unset_mark right_next))))"

declare skip_marked.simps [code]

text \<open>"Find unmarked node pair at this level": returns \<open>left\<close>, \<open>left_next\<close> and \<open>right\<close>.\<close>

partial_function (option) find_pair ::
  "world \<Rightarrow> int \<Rightarrow> nat \<Rightarrow> ptr \<Rightarrow> ptr \<Rightarrow> ptr \<Rightarrow> (fault + ptr \<times> ptr \<times> ptr) option"
where
  "find_pair s v i left left_next right =
     (case skip_marked s i right of
        None \<Rightarrow> None
      | Some (Inl e) \<Rightarrow> Some (Inl e)
      | Some (Inr (right', right_next)) \<Rightarrow>
          (case deref s right' of
             Inl e \<Rightarrow> Some (Inl e)
           | Inr n \<Rightarrow>
               (if val n \<ge> v then Some (Inr (left, left_next, right'))
                else find_pair s v i right' right_next right_next)))"

declare find_pair.simps [code]

text \<open>
  The arrays \<open>left_list\<close> and \<open>right_list\<close>: \<open>None\<close> is the null pointer, a cell never
  written holds \<open>None\<close>.
\<close>

type_synonym ptr_array = "ptr option list option"

definition arr_set :: "ptr_array \<Rightarrow> nat \<Rightarrow> ptr \<Rightarrow> fault + ptr_array" where
  "arr_set arr i p = (case arr of
      None \<Rightarrow> Inr None
    | Some xs \<Rightarrow> (if i < length xs then Inr (Some (xs[i := Some p])) else Inl OutOfBounds))"

definition arr_get :: "ptr_array \<Rightarrow> nat \<Rightarrow> fault + ptr" where
  "arr_get arr i = (case arr of
      None \<Rightarrow> Inl NullDeref
    | Some xs \<Rightarrow> (if i < length xs
                  then (case xs ! i of None \<Rightarrow> Inl Uninit | Some p \<Rightarrow> Inr p)
                  else Inl OutOfBounds))"

text \<open>
  The loop over the levels, \<open>for (i = left->toplevel - 1; i >= 0; i--)\<close>; the second
  argument is \<open>i + 1\<close>. The Boolean of the result says that the body jumped to \<open>retry\<close>.
\<close>

fun search_levels ::
  "int \<Rightarrow> nat \<Rightarrow> world \<Rightarrow> ptr \<Rightarrow> ptr_array \<Rightarrow> ptr_array \<Rightarrow>
   (fault + bool \<times> world \<times> ptr_array \<times> ptr_array) option"
where
  "search_levels v 0 s left left_list right_list = Some (Inr (False, s, left_list, right_list))"
| "search_levels v (Suc i) s left left_list right_list =
     (case read_next s left i of
        Inl e \<Rightarrow> Some (Inl e)
      | Inr left_next \<Rightarrow>
          (if is_marked left_next then Some (Inr (True, s, left_list, right_list))
           else (case find_pair s v i left (fst left_next) (fst left_next) of
              None \<Rightarrow> None
            | Some (Inl e) \<Rightarrow> Some (Inl e)
            | Some (Inr (left', left_next', right)) \<Rightarrow>
                (case (if left_next' \<noteq> right
                       then cas_next s left' i (left_next', False) (right, False)
                       else Inr (True, s)) of
                   Inl e \<Rightarrow> Some (Inl e)
                 | Inr (ok, s') \<Rightarrow>
                     (if \<not> ok then Some (Inr (True, s', left_list, right_list))
                      else (case arr_set left_list i left' of
                         Inl e \<Rightarrow> Some (Inl e)
                       | Inr left_list' \<Rightarrow>
                           (case arr_set right_list i right of
                              Inl e \<Rightarrow> Some (Inl e)
                            | Inr right_list' \<Rightarrow>
                                search_levels v i s' left' left_list' right_list')))))))"

text \<open>The parameter \<open>set\<close> of the source is not used by its body and is left out.\<close>

partial_function (option) fraser_search ::
  "world \<Rightarrow> int \<Rightarrow> ptr_array \<Rightarrow> ptr_array \<Rightarrow> (int \<Rightarrow> rat) \<Rightarrow> shift_node list \<Rightarrow> int \<Rightarrow>
   (fault + world \<times> ptr_array \<times> ptr_array) option"
where
  "fraser_search s v left_list right_list est tbl table_size =
     (case shortcut_start s est tbl table_size v of
        Inl e \<Rightarrow> Some (Inl e)
      | Inr left \<Rightarrow>
          (case deref s left of
             Inl e \<Rightarrow> Some (Inl e)
           | Inr n \<Rightarrow>
               (case search_levels v (toplevel n) s left left_list right_list of
                  None \<Rightarrow> None
                | Some (Inl e) \<Rightarrow> Some (Inl e)
                | Some (Inr (again, s', left_list', right_list')) \<Rightarrow>
                    (if again then fraser_search s' v left_list' right_list' est tbl table_size
                     else Some (Inr (s', left_list', right_list'))))))"

declare fraser_search.simps [code]

subsection \<open>Marking (\<open>mark_node_ptrs\<close>)\<close>

partial_function (option) mark_level :: "world \<Rightarrow> ptr \<Rightarrow> nat \<Rightarrow> (fault + world) option" where
  "mark_level s n i =
     (case read_next s n i of
        Inl e \<Rightarrow> Some (Inl e)
      | Inr n_next \<Rightarrow>
          (if is_marked n_next then Some (Inr s)
           else (case cas_next s n i n_next (set_mark n_next) of
              Inl e \<Rightarrow> Some (Inl e)
            | Inr (ok, s') \<Rightarrow> (if ok then Some (Inr s') else mark_level s' n i))))"

declare mark_level.simps [code]

fun mark_levels :: "world \<Rightarrow> ptr \<Rightarrow> nat \<Rightarrow> (fault + world) option" where
  "mark_levels s n 0 = Some (Inr s)"
| "mark_levels s n (Suc i) =
     (case mark_level s n i of
        None \<Rightarrow> None
      | Some (Inl e) \<Rightarrow> Some (Inl e)
      | Some (Inr s') \<Rightarrow> mark_levels s' n i)"

definition mark_node_ptrs :: "world \<Rightarrow> ptr \<Rightarrow> (fault + world) option" where
  "mark_node_ptrs s n =
     (case deref s n of
        Inl e \<Rightarrow> Some (Inl e)
      | Inr nd \<Rightarrow> mark_levels s n (toplevel nd))"

subsection \<open>Operations of the engine\<close>

definition sl_contains ::
  "world \<Rightarrow> (int \<Rightarrow> rat) \<Rightarrow> shift_node list \<Rightarrow> int \<Rightarrow> int \<Rightarrow> (fault + int \<times> world) option"
where
  "sl_contains s est tbl table_size v =
     (case fraser_search s v None (Some (replicate (levelmax s) None)) est tbl table_size of
        None \<Rightarrow> None
      | Some (Inl e) \<Rightarrow> Some (Inl e)
      | Some (Inr (s1, preds, succs)) \<Rightarrow>
          (case arr_get succs 0 of
             Inl e \<Rightarrow> Some (Inl e)
           | Inr succ0 \<Rightarrow>
               (case deref s1 succ0 of
                  Inl e \<Rightarrow> Some (Inl e)
                | Inr sn \<Rightarrow> Some (Inr (if val sn = v \<and> deleted sn = 0 then 1 else 0, s1)))))"

text \<open>\<open>for (i = 0; i < new_n->toplevel; i++) new_n->next[i] = succs[i]\<close>, over its indices.\<close>

fun copy_succs :: "world \<Rightarrow> ptr \<Rightarrow> ptr_array \<Rightarrow> nat list \<Rightarrow> fault + world" where
  "copy_succs s new_n succs [] = Inr s"
| "copy_succs s new_n succs (i # is) =
     (case arr_get succs i of
        Inl e \<Rightarrow> Inl e
      | Inr succ \<Rightarrow>
          (case write_next s new_n i (succ, False) of
             Inl e \<Rightarrow> Inl e
           | Inr s' \<Rightarrow> copy_succs s' new_n succs is))"

text \<open>The \<open>while (1)\<close> that links the new node at one level \<open>i \<ge> 1\<close>.\<close>

partial_function (option) link_level ::
  "world \<Rightarrow> int \<Rightarrow> (int \<Rightarrow> rat) \<Rightarrow> shift_node list \<Rightarrow> int \<Rightarrow> ptr \<Rightarrow> nat \<Rightarrow> ptr_array \<Rightarrow> ptr_array \<Rightarrow>
   (fault + world \<times> ptr_array \<times> ptr_array) option"
where
  "link_level s v est tbl table_size new_n i preds succs =
     (case arr_get preds i of
        Inl e \<Rightarrow> Some (Inl e)
      | Inr pred \<Rightarrow>
     (case arr_get succs i of
        Inl e \<Rightarrow> Some (Inl e)
      | Inr succ \<Rightarrow>
     (case read_next s new_n i of
        Inl e \<Rightarrow> Some (Inl e)
      | Inr new_next \<Rightarrow>
     (case (if new_next \<noteq> (succ, False)
            then cas_next s new_n i (unset_mark new_next) (succ, False)
            else Inr (True, s)) of
        Inl e \<Rightarrow> Some (Inl e)
      | Inr (ok1, s1) \<Rightarrow>
          (if \<not> ok1 then Some (Inr (s1, preds, succs))
           else
     (case deref s1 succ of
        Inl e \<Rightarrow> Some (Inl e)
      | Inr sn \<Rightarrow>
     (case cas_next s1 pred i
             (if val sn = v then (case succ of Node a \<Rightarrow> NextArr a | _ \<Rightarrow> succ) else succ, False)
             (new_n, False) of
        Inl e \<Rightarrow> Some (Inl e)
      | Inr (ok2, s2) \<Rightarrow>
          (if ok2 then Some (Inr (s2, preds, succs))
           else
     (case fraser_search s2 v preds succs est tbl table_size of
        None \<Rightarrow> None
      | Some (Inl e) \<Rightarrow> Some (Inl e)
      | Some (Inr (s3, preds', succs')) \<Rightarrow>
          link_level s3 v est tbl table_size new_n i preds' succs')))))))))"

declare link_level.simps [code]

text \<open>\<open>for (i = 1; i < new_n->toplevel; i++)\<close>, over its indices.\<close>

fun link_upper ::
  "world \<Rightarrow> int \<Rightarrow> (int \<Rightarrow> rat) \<Rightarrow> shift_node list \<Rightarrow> int \<Rightarrow> ptr \<Rightarrow> nat list \<Rightarrow> ptr_array \<Rightarrow> ptr_array \<Rightarrow>
   (fault + world \<times> ptr_array \<times> ptr_array) option"
where
  "link_upper s v est tbl table_size new_n [] preds succs = Some (Inr (s, preds, succs))"
| "link_upper s v est tbl table_size new_n (i # is) preds succs =
     (case link_level s v est tbl table_size new_n i preds succs of
        None \<Rightarrow> None
      | Some (Inl e) \<Rightarrow> Some (Inl e)
      | Some (Inr (s', preds', succs')) \<Rightarrow>
          link_upper s' v est tbl table_size new_n is preds' succs')"

text \<open>The part of \<open>sl_add\<close> from the label \<open>retry\<close> on.\<close>

partial_function (option) sl_add_retry ::
  "world \<Rightarrow> (int \<Rightarrow> rat) \<Rightarrow> shift_node list \<Rightarrow> int \<Rightarrow> int \<Rightarrow> addr \<Rightarrow> ptr_array \<Rightarrow> ptr_array \<Rightarrow>
   (fault + int \<times> world) option"
where
  "sl_add_retry s est tbl table_size v new_n preds succs =
     (case fraser_search s v preds succs est tbl table_size of
        None \<Rightarrow> None
      | Some (Inl e) \<Rightarrow> Some (Inl e)
      | Some (Inr (s1, preds1, succs1)) \<Rightarrow>
     (case arr_get succs1 0 of
        Inl e \<Rightarrow> Some (Inl e)
      | Inr succ0 \<Rightarrow>
     (case deref s1 succ0 of
        Inl e \<Rightarrow> Some (Inl e)
      | Inr sn \<Rightarrow>
          (if val sn = v then
             (if deleted sn \<noteq> 0 then
                (case mark_node_ptrs s1 succ0 of
                   None \<Rightarrow> None
                 | Some (Inl e) \<Rightarrow> Some (Inl e)
                 | Some (Inr s2) \<Rightarrow> sl_add_retry s2 est tbl table_size v new_n preds1 succs1)
              else Some (Inr (0, sl_delete_node s1 new_n)))
           else
     (case deref s1 (Node new_n) of
        Inl e \<Rightarrow> Some (Inl e)
      | Inr nn \<Rightarrow>
     (case copy_succs s1 (Node new_n) succs1 [0..<toplevel nn] of
        Inl e \<Rightarrow> Some (Inl e)
      | Inr s2 \<Rightarrow>
     (case arr_get preds1 0 of
        Inl e \<Rightarrow> Some (Inl e)
      | Inr pred0 \<Rightarrow>
     (case cas_next s2 pred0 0 (succ0, False) (Node new_n, False) of
        Inl e \<Rightarrow> Some (Inl e)
      | Inr (ok, s3) \<Rightarrow>
          (if \<not> ok then sl_add_retry s3 est tbl table_size v new_n preds1 succs1
           else
     (case link_upper s3 v est tbl table_size (Node new_n) [1..<toplevel nn] preds1 succs1 of
        None \<Rightarrow> None
      | Some (Inl e) \<Rightarrow> Some (Inl e)
      | Some (Inr (s4, preds4, succs4)) \<Rightarrow> Some (Inr (1, s4))))))))))))"

declare sl_add_retry.simps [code]

definition sl_add ::
  "world \<Rightarrow> (int \<Rightarrow> rat) \<Rightarrow> shift_node list \<Rightarrow> int \<Rightarrow> int \<Rightarrow> (fault + int \<times> world) option"
where
  "sl_add s est tbl table_size v =
     (case get_rand_level s of (lvl, s1) \<Rightarrow>
        (case sl_new_simple_node s1 v lvl of (new_n, s2) \<Rightarrow>
           sl_add_retry s2 est tbl table_size v new_n
             (Some (replicate (levelmax s2) None)) (Some (replicate (levelmax s2) None))))"

definition set_deleted :: "world \<Rightarrow> ptr \<Rightarrow> fault + world" where
  "set_deleted s p = (case p of
      Null \<Rightarrow> Inl NullDeref
    | NextArr a \<Rightarrow> Inl BadAccess
    | Node a \<Rightarrow> (case heap s a of
          None \<Rightarrow> Inl BadAccess
        | Some n \<Rightarrow> Inr (s\<lparr>heap := (heap s)(a \<mapsto> n\<lparr>deleted := deleted n + 1\<rparr>)\<rparr>)))"

definition sl_remove ::
  "world \<Rightarrow> (int \<Rightarrow> rat) \<Rightarrow> shift_node list \<Rightarrow> int \<Rightarrow> int \<Rightarrow> (fault + int \<times> world) option"
where
  "sl_remove s est tbl table_size v =
     (case fraser_search s v None (Some (replicate (levelmax s) None)) est tbl table_size of
        None \<Rightarrow> None
      | Some (Inl e) \<Rightarrow> Some (Inl e)
      | Some (Inr (s1, preds, succs)) \<Rightarrow>
     (case arr_get succs 0 of
        Inl e \<Rightarrow> Some (Inl e)
      | Inr succ0 \<Rightarrow>
     (case deref s1 succ0 of
        Inl e \<Rightarrow> Some (Inl e)
      | Inr sn \<Rightarrow>
          (if val sn \<noteq> v then Some (Inr (0, s1))
           else if deleted sn \<noteq> 0 then Some (Inr (0, s1))
           else
     (case set_deleted s1 succ0 of
        Inl e \<Rightarrow> Some (Inl e)
      | Inr s2 \<Rightarrow>
     (case mark_node_ptrs s2 succ0 of
        None \<Rightarrow> None
      | Some (Inl e) \<Rightarrow> Some (Inl e)
      | Some (Inr s3) \<Rightarrow>
     (case fraser_search s3 v None None est tbl table_size of
        None \<Rightarrow> None
      | Some (Inl e) \<Rightarrow> Some (Inl e)
      | Some (Inr (s4, preds4, succs4)) \<Rightarrow> Some (Inr (1, s4)))))))))"

subsection \<open>Sequential bulk loader (\<open>seq_add\<close>)\<close>

text \<open>
  \<open>seq_add\<close> reads forward slots as plain pointers, so its local arrays hold raw
  references; following a raw reference whose mark bit is set is a fault.
\<close>

partial_function (option) seq_walk ::
  "world \<Rightarrow> int \<Rightarrow> nat \<Rightarrow> ptr \<Rightarrow> ref \<Rightarrow> (fault + ptr) option"
where
  "seq_walk s v i nd nxt =
     (case deref_raw s nxt of
        Inl e \<Rightarrow> Some (Inl e)
      | Inr n \<Rightarrow>
          (if val n < v
           then (case read_next s (fst nxt) i of
                   Inl e \<Rightarrow> Some (Inl e)
                 | Inr nxt' \<Rightarrow> seq_walk s v i (fst nxt) nxt')
           else Some (Inr nd)))"

declare seq_walk.simps [code]

fun seq_levels ::
  "world \<Rightarrow> int \<Rightarrow> nat \<Rightarrow> ptr \<Rightarrow> ptr option list \<Rightarrow> ref option list \<Rightarrow>
   (fault + ptr \<times> ptr option list \<times> ref option list) option"
where
  "seq_levels s v 0 nd preds succs = Some (Inr (nd, preds, succs))"
| "seq_levels s v (Suc i) nd preds succs =
     (case read_next s nd i of
        Inl e \<Rightarrow> Some (Inl e)
      | Inr nxt \<Rightarrow>
          (case seq_walk s v i nd nxt of
             None \<Rightarrow> None
           | Some (Inl e) \<Rightarrow> Some (Inl e)
           | Some (Inr nd') \<Rightarrow>
               (case read_next s nd' i of
                  Inl e \<Rightarrow> Some (Inl e)
                | Inr r \<Rightarrow>
                    (if i < length preds \<and> i < length succs
                     then seq_levels s v i nd' (preds[i := Some nd']) (succs[i := Some r])
                     else Some (Inl OutOfBounds)))))"

text \<open>\<open>for (i = 0; i < l; i++) { node->next[i] = succs[i]; preds[i]->next[i] = node; }\<close>\<close>

fun seq_link :: "world \<Rightarrow> ptr \<Rightarrow> ptr option list \<Rightarrow> ref option list \<Rightarrow> nat list \<Rightarrow> fault + world" where
  "seq_link s nd preds succs [] = Inr s"
| "seq_link s nd preds succs (i # is) =
     (if i < length preds \<and> i < length succs
      then (case (preds ! i, succs ! i) of
              (Some p, Some r) \<Rightarrow>
                (case write_next s nd i r of
                   Inl e \<Rightarrow> Inl e
                 | Inr s1 \<Rightarrow>
                     (case write_next s1 p i (nd, False) of
                        Inl e \<Rightarrow> Inl e
                      | Inr s2 \<Rightarrow> seq_link s2 nd preds succs is))
            | _ \<Rightarrow> Inl Uninit)
      else Inl OutOfBounds)"

definition seq_add :: "world \<Rightarrow> addr \<Rightarrow> int \<Rightarrow> (fault + int \<times> world) option" where
  "seq_add s sh v =
     (case deref s (Node sh) of
        Inl e \<Rightarrow> Some (Inl e)
      | Inr hn \<Rightarrow>
     (case seq_levels s v (toplevel hn) (Node sh)
             (replicate (levelmax s) None) (replicate (levelmax s) None) of
        None \<Rightarrow> None
      | Some (Inl e) \<Rightarrow> Some (Inl e)
      | Some (Inr (nd, preds, succs)) \<Rightarrow>
     (case read_next s nd 0 of
        Inl e \<Rightarrow> Some (Inl e)
      | Inr r \<Rightarrow>
     (case deref_raw s r of
        Inl e \<Rightarrow> Some (Inl e)
      | Inr n \<Rightarrow>
          (if val n \<noteq> v then
             (case get_rand_level s of (l, s1) \<Rightarrow>
                (case sl_new_simple_node s1 v l of (a, s2) \<Rightarrow>
                   (case seq_link s2 (Node a) preds succs [0..<l] of
                      Inl e \<Rightarrow> Some (Inl e)
                    | Inr s3 \<Rightarrow> Some (Inr (1, s3)))))
           else Some (Inr (0, s)))))))"

section \<open>The simple-list variant (ML-list/list.cpp)\<close>

text \<open>
  The node of list.h has a value, a Boolean \<open>deleted\<close> flag and one successor. The
  functions of list.cpp carry the prefix \<open>list_\<close>, as their names are those of the
  skip-list variant.
\<close>

record list_node =
  lval :: int
  ldeleted :: bool
  lnext :: ptr

record list_world =
  lheap :: "addr \<Rightarrow> list_node option"
  lbrk :: addr

definition list_deref :: "list_world \<Rightarrow> ptr \<Rightarrow> fault + list_node" where
  "list_deref s p = (case p of
      Null \<Rightarrow> Inl NullDeref
    | NextArr a \<Rightarrow> Inl BadAccess
    | Node a \<Rightarrow> (case lheap s a of None \<Rightarrow> Inl BadAccess | Some n \<Rightarrow> Inr n))"

definition list_sl_new_node :: "list_world \<Rightarrow> int \<Rightarrow> ptr \<Rightarrow> addr \<times> list_world" where
  "list_sl_new_node s v nxt =
     (lbrk s,
      s\<lparr>lheap := (lheap s)(lbrk s \<mapsto> \<lparr>lval = v, ldeleted = False, lnext = nxt\<rparr>),
        lbrk := Suc (lbrk s)\<rparr>)"

definition list_sl_set_new :: "list_world \<Rightarrow> addr \<times> list_world" where
  "list_sl_set_new s =
     (case list_sl_new_node s VAL_MAX Null of (mx, s1) \<Rightarrow>
        list_sl_new_node s1 VAL_MIN (Node mx))"

text \<open>The shortcut loop \<open>while (pred->val > val && k-- > 0) pred = shift_table[k].node\<close>.\<close>

function list_shortcut :: "list_world \<Rightarrow> shift_node list \<Rightarrow> int \<Rightarrow> int \<Rightarrow> ptr \<Rightarrow> fault + ptr" where
  "list_shortcut s tbl v k pred =
     (case list_deref s pred of
        Inl e \<Rightarrow> Inl e
      | Inr n \<Rightarrow>
          (if lval n > v \<and> k > 0
           then (case tab_get tbl (k - 1) of
                   Inl e \<Rightarrow> Inl e
                 | Inr e \<Rightarrow> list_shortcut s tbl v (k - 1) (node e))
           else Inr pred))"
  by pat_completeness auto
termination
  by (relation "measure (\<lambda>(s, tbl, v, k, pred). nat k)") auto

definition list_shortcut_start ::
  "list_world \<Rightarrow> (int \<Rightarrow> rat) \<Rightarrow> shift_node list \<Rightarrow> int \<Rightarrow> int \<Rightarrow> fault + ptr"
where
  "list_shortcut_start s est tbl table_size v =
     (let k = bucket est table_size v
      in (case tab_get tbl k of
            Inl e \<Rightarrow> Inl e
          | Inr e \<Rightarrow> list_shortcut s tbl v k (node e)))"

text \<open>The scan \<open>while (curr->val < val) { pred = curr; curr = curr->next; }\<close>.\<close>

partial_function (option) list_scan ::
  "list_world \<Rightarrow> int \<Rightarrow> ptr \<Rightarrow> ptr \<Rightarrow> (fault + ptr \<times> ptr) option"
where
  "list_scan s v pred cur =
     (case list_deref s cur of
        Inl e \<Rightarrow> Some (Inl e)
      | Inr n \<Rightarrow> (if lval n < v then list_scan s v cur (lnext n) else Some (Inr (pred, cur))))"

declare list_scan.simps [code]

definition list_set_next :: "list_world \<Rightarrow> ptr \<Rightarrow> ptr \<Rightarrow> fault + list_world" where
  "list_set_next s p q = (case p of
      Null \<Rightarrow> Inl NullDeref
    | NextArr a \<Rightarrow> Inl BadAccess
    | Node a \<Rightarrow> (case lheap s a of
          None \<Rightarrow> Inl BadAccess
        | Some n \<Rightarrow> Inr (s\<lparr>lheap := (lheap s)(a \<mapsto> n\<lparr>lnext := q\<rparr>)\<rparr>)))"

definition list_set_deleted :: "list_world \<Rightarrow> ptr \<Rightarrow> bool \<Rightarrow> fault + list_world" where
  "list_set_deleted s p b = (case p of
      Null \<Rightarrow> Inl NullDeref
    | NextArr a \<Rightarrow> Inl BadAccess
    | Node a \<Rightarrow> (case lheap s a of
          None \<Rightarrow> Inl BadAccess
        | Some n \<Rightarrow> Inr (s\<lparr>lheap := (lheap s)(a \<mapsto> n\<lparr>ldeleted := b\<rparr>)\<rparr>)))"

definition list_sl_add ::
  "list_world \<Rightarrow> addr \<Rightarrow> (int \<Rightarrow> rat) \<Rightarrow> shift_node list \<Rightarrow> int \<Rightarrow> int \<Rightarrow> (fault + int \<times> list_world) option"
where
  "list_sl_add s sh est tbl table_size v =
     (case list_shortcut_start s est tbl table_size v of
        Inl e \<Rightarrow> Some (Inl e)
      | Inr pred0 \<Rightarrow>
     (case list_deref s (Node sh) of
        Inl e \<Rightarrow> Some (Inl e)
      | Inr hn \<Rightarrow>
     (case list_scan s v (Node sh) (lnext hn) of
        None \<Rightarrow> None
      | Some (Inl e) \<Rightarrow> Some (Inl e)
      | Some (Inr (pred, cur)) \<Rightarrow>
     (case list_deref s cur of
        Inl e \<Rightarrow> Some (Inl e)
      | Inr cn \<Rightarrow>
          (if lval cn = v then
             (if ldeleted cn
              then (case list_set_deleted s cur False of
                      Inl e \<Rightarrow> Some (Inl e)
                    | Inr s1 \<Rightarrow> Some (Inr (1, s1)))
              else Some (Inr (0, s)))
           else
             (case list_sl_new_node s v cur of (newnode, s1) \<Rightarrow>
                (case list_set_next s1 pred (Node newnode) of
                   Inl e \<Rightarrow> Some (Inl e)
                 | Inr s2 \<Rightarrow> Some (Inr (1, s2)))))))))"

definition list_sl_remove ::
  "list_world \<Rightarrow> (int \<Rightarrow> rat) \<Rightarrow> shift_node list \<Rightarrow> int \<Rightarrow> int \<Rightarrow> (fault + int \<times> list_world) option"
where
  "list_sl_remove s est tbl table_size v =
     (case list_shortcut_start s est tbl table_size v of
        Inl e \<Rightarrow> Some (Inl e)
      | Inr pred0 \<Rightarrow>
     (case list_deref s pred0 of
        Inl e \<Rightarrow> Some (Inl e)
      | Inr pn \<Rightarrow>
     (case list_scan s v pred0 (lnext pn) of
        None \<Rightarrow> None
      | Some (Inl e) \<Rightarrow> Some (Inl e)
      | Some (Inr (pred, cur)) \<Rightarrow>
     (case list_deref s cur of
        Inl e \<Rightarrow> Some (Inl e)
      | Inr cn \<Rightarrow>
          (if lval cn \<noteq> v \<or> ldeleted cn then Some (Inr (0, s))
           else (case list_set_deleted s cur True of
                   Inl e \<Rightarrow> Some (Inl e)
                 | Inr s1 \<Rightarrow> Some (Inr (1, s1))))))))"

section \<open>Specification-level definitions\<close>

subsection \<open>Chains in the store\<close>

text \<open>
  \<open>chain s i a xs b\<close>: following the unmarked level-\<open>i\<close> references from node \<open>a\<close> visits
  the nodes \<open>xs\<close> and then holds \<open>b\<close>.
\<close>

fun chain :: "world \<Rightarrow> nat \<Rightarrow> addr \<Rightarrow> addr list \<Rightarrow> ptr \<Rightarrow> bool" where
  "chain s i a [] b = (read_next s (Node a) i = Inr (b, False))"
| "chain s i a (x # xs) b = (read_next s (Node a) i = Inr (Node x, False) \<and> chain s i x xs b)"

definition nval :: "world \<Rightarrow> addr \<Rightarrow> int" where
  "nval s a = (case heap s a of None \<Rightarrow> 0 | Some n \<Rightarrow> val n)"

definition ntop :: "world \<Rightarrow> addr \<Rightarrow> nat" where
  "ntop s a = (case heap s a of None \<Rightarrow> 0 | Some n \<Rightarrow> toplevel n)"

definition ndel :: "world \<Rightarrow> addr \<Rightarrow> nat" where
  "ndel s a = (case heap s a of None \<Rightarrow> 0 | Some n \<Rightarrow> deleted n)"

subsection \<open>The shift-table builder as section 4.3 of the specification words it\<close>

text \<open>
  The reference builder follows the steps of the specification in their stated order,
  on the freshly allocated table (step 1): seed bucket 0 with the head sentinel and
  bucket \<open>T-1\<close> with the tail sentinel (step 2), walk the nodes of the level-0 chain in
  rank order (step 3), fill the empty buckets backwards (step 4).
\<close>

definition ref_seed :: "shift_node list \<Rightarrow> ptr \<Rightarrow> ptr \<Rightarrow> shift_node list" where
  "ref_seed tbl h t =
     (tbl[0 := \<lparr>count = 1, delta = 0, node = h\<rparr>])
        [length tbl - 1 := \<lparr>count = 1, delta = 0, node = t\<rparr>]"

definition ref_bucket :: "(int \<Rightarrow> rat) \<Rightarrow> nat \<Rightarrow> int \<Rightarrow> nat" where
  "ref_bucket est T v = nat \<lfloor>est v * of_int (int T - 1)\<rfloor>"

fun ref_walk :: "(int \<Rightarrow> rat) \<Rightarrow> shift_node list \<Rightarrow> int \<Rightarrow> (ptr \<times> int) list \<Rightarrow> shift_node list" where
  "ref_walk est tbl j [] = tbl"
| "ref_walk est tbl j ((p, v) # rest) =
     (let k = ref_bucket est (length tbl) v;
          e = tbl ! k;
          e1 = (if j - int k \<le> delta e then e\<lparr>delta := j - int k, node := p\<rparr> else e)
      in ref_walk est (tbl[k := e1\<lparr>count := count e1 + 1\<rparr>]) (j + 1) rest)"

fun ref_fill :: "shift_node list \<Rightarrow> nat \<Rightarrow> shift_node list" where
  "ref_fill tbl 0 = tbl"
| "ref_fill tbl (Suc j) =
     (if count (tbl ! j) = 0
      then ref_fill (tbl[j := \<lparr>count = count (tbl ! Suc j), delta = delta (tbl ! Suc j) + 1,
                               node = node (tbl ! Suc j)\<rparr>]) j
      else ref_fill tbl j)"

definition ref_build ::
  "(int \<Rightarrow> rat) \<Rightarrow> shift_node list \<Rightarrow> ptr \<Rightarrow> ptr \<Rightarrow> (ptr \<times> int) list \<Rightarrow> shift_node list"
where
  "ref_build est tbl h t nodes = ref_fill (ref_walk est (ref_seed tbl h t) 0 nodes) (length tbl)"

text \<open>What a bucket may hold: a node of \<open>N\<close> once a node was counted, the initial entry before.\<close>

definition entry_ok :: "ptr set \<Rightarrow> shift_node \<Rightarrow> bool" where
  "entry_ok N e \<longleftrightarrow> (count e \<noteq> 0 \<longrightarrow> node e \<in> N) \<and> (count e = 0 \<longrightarrow> delta e = INT_MAX) \<and> 0 \<le> count e"

text \<open>The world a call leaves behind, for building example states.\<close>

definition world_after :: "(fault + int \<times> world) option \<Rightarrow> world" where
  "world_after r = (case r of Some (Inr (x, s)) \<Rightarrow> s | _ \<Rightarrow> init_world 0)"

definition result_of :: "(fault + int \<times> world) option \<Rightarrow> int option" where
  "result_of r = (case r of Some (Inr (x, s)) \<Rightarrow> Some x | _ \<Rightarrow> None)"

definition new_set :: "nat \<Rightarrow> world" where
  "new_set lm = (case sl_set_new (init_world lm) of Inr (h, s) \<Rightarrow> s | Inl e \<Rightarrow> init_world lm)"

definition lists_of ::
  "(fault + world \<times> ptr_array \<times> ptr_array) option \<Rightarrow> (ptr_array \<times> ptr_array) option"
where
  "lists_of r = (case r of Some (Inr (s, p, q)) \<Rightarrow> Some (p, q) | _ \<Rightarrow> None)"

text \<open>
  An example store: a new set with \<open>levelmax = 4\<close> (tail at address 0, head at address 1)
  after \<open>seq_add\<close> of the value 5 (the node at address 2).
\<close>

definition loaded_5 :: world where
  "loaded_5 = world_after (seq_add (new_set 4) 1 5)"

subsection \<open>The structure of a quiescent skip list\<close>

text \<open>
  \<open>mchain s i M a xs b\<close> is a chain in which exactly the nodes of \<open>M\<close> carry a marked
  level-\<open>i\<close> reference.
\<close>

fun mchain :: "world \<Rightarrow> nat \<Rightarrow> addr set \<Rightarrow> addr \<Rightarrow> addr list \<Rightarrow> ptr \<Rightarrow> bool" where
  "mchain s i M a [] b = (read_next s (Node a) i = Inr (b, a \<in> M))"
| "mchain s i M a (x # xs) b =
     (read_next s (Node a) i = Inr (Node x, a \<in> M) \<and> mchain s i M x xs b)"

definition alloc :: "world \<Rightarrow> addr \<Rightarrow> bool" where
  "alloc s a = (heap s a \<noteq> None)"

definition nslots :: "world \<Rightarrow> addr \<Rightarrow> nat" where
  "nslots s a = (case heap s a of None \<Rightarrow> 0 | Some n \<Rightarrow> length (nexts n))"

text \<open>The nodes of \<open>ns\<close> (in level-0 order) that take part in level \<open>i\<close>, and its two halves around a value \<open>v\<close>.\<close>

definition lev :: "world \<Rightarrow> nat \<Rightarrow> addr list \<Rightarrow> addr list" where
  "lev s i ns = filter (\<lambda>a. i < ntop s a) ns"

definition below :: "world \<Rightarrow> int \<Rightarrow> nat \<Rightarrow> addr list \<Rightarrow> addr list" where
  "below s v i ns = filter (\<lambda>a. i < ntop s a \<and> nval s a < v) ns"

definition above :: "world \<Rightarrow> int \<Rightarrow> nat \<Rightarrow> addr list \<Rightarrow> addr list" where
  "above s v i ns = filter (\<lambda>a. i < ntop s a \<and> \<not> nval s a < v) ns"

definition pred_at :: "world \<Rightarrow> addr \<Rightarrow> int \<Rightarrow> addr list \<Rightarrow> nat \<Rightarrow> ptr" where
  "pred_at s h v ns i = Node (last (h # below s v i ns))"

definition succ_at :: "world \<Rightarrow> addr \<Rightarrow> int \<Rightarrow> addr list \<Rightarrow> nat \<Rightarrow> ptr" where
  "succ_at s t v ns i = Node (hd (above s v i ns @ [t]))"

text \<open>
  The nodes: head \<open>h\<close> and tail \<open>t\<close> of full height, the tail with the value \<open>VAL_MAX\<close>,
  between them the nodes \<open>ns\<close>, with increasing values below \<open>VAL_MAX\<close> and as many
  slots as their height; every allocated address lies below the allocation pointer.
\<close>

definition skel :: "world \<Rightarrow> addr \<Rightarrow> addr \<Rightarrow> addr list \<Rightarrow> bool" where
  "skel s h t ns \<longleftrightarrow>
     h \<noteq> t \<and> h \<notin> set ns \<and> t \<notin> set ns \<and> distinct ns \<and> 0 < levelmax s \<and>
     alloc s h \<and> ntop s h = levelmax s \<and> nslots s h = levelmax s \<and>
     alloc s t \<and> ntop s t = levelmax s \<and> nval s t = VAL_MAX \<and>
     (\<forall>a \<in> set ns. alloc s a \<and> 0 < ntop s a \<and> ntop s a \<le> levelmax s \<and>
                    nslots s a = ntop s a \<and> nval s a < VAL_MAX) \<and>
     sorted_wrt (<) (map (nval s) ns) \<and>
     (\<forall>a. alloc s a \<longrightarrow> a < brk s)"

text \<open>
  The links while a search unlinks the marked nodes \<open>M\<close>: the levels below \<open>n\<close> still
  hold them, the levels from \<open>n\<close> on do not. With \<open>M\<close> empty every level is an unmarked
  chain from the head through its nodes to the tail.
\<close>

definition part_links :: "world \<Rightarrow> addr \<Rightarrow> addr \<Rightarrow> addr list \<Rightarrow> addr set \<Rightarrow> nat \<Rightarrow> bool" where
  "part_links s h t ns M n \<longleftrightarrow>
     (\<forall>i < levelmax s.
        read_next s (Node t) i = Inr (Null, False) \<and>
        (if i < n then mchain s i M h (lev s i ns) (Node t)
         else chain s i h (lev s i (filter (\<lambda>a. a \<notin> M) ns)) (Node t)))"

definition links :: "world \<Rightarrow> addr \<Rightarrow> addr \<Rightarrow> addr list \<Rightarrow> bool" where
  "links s h t ns \<longleftrightarrow>
     (\<forall>i < levelmax s.
        read_next s (Node t) i = Inr (Null, False) \<and> chain s i h (lev s i ns) (Node t))"

definition good :: "world \<Rightarrow> addr \<Rightarrow> addr \<Rightarrow> addr list \<Rightarrow> bool" where
  "good s h t ns \<longleftrightarrow> skel s h t ns \<and> links s h t ns"

definition same_nodes :: "world \<Rightarrow> world \<Rightarrow> bool" where
  "same_nodes s s' \<longleftrightarrow>
     brk s' = brk s \<and> levelmax s' = levelmax s \<and>
     (\<forall>a. alloc s' a = alloc s a \<and> nval s' a = nval s a \<and> ntop s' a = ntop s a \<and>
          nslots s' a = nslots s a \<and> ndel s' a = ndel s a)"

text \<open>A table whose shortcut loop always ends at the head: bucket 0 names the head, the others the tail.\<close>

definition head_table :: "addr \<Rightarrow> addr \<Rightarrow> shift_node list \<Rightarrow> bool" where
  "head_table h t tbl \<longleftrightarrow>
     tbl \<noteq> [] \<and> node (tbl ! 0) = Node h \<and> (\<forall>i < length tbl. 0 < i \<longrightarrow> node (tbl ! i) = Node t)"

definition arr_fill :: "nat \<Rightarrow> (nat \<Rightarrow> ptr) \<Rightarrow> ptr_array \<Rightarrow> ptr_array" where
  "arr_fill n f arr =
     map_option (\<lambda>xs. map (\<lambda>i. if i < n then Some (f i) else xs ! i) [0..<length xs]) arr"

definition arr_ok :: "nat \<Rightarrow> ptr_array \<Rightarrow> bool" where
  "arr_ok L arr \<longleftrightarrow> (case arr of None \<Rightarrow> True | Some xs \<Rightarrow> length xs = L)"

subsection \<open>The reference ordered set and runs of operations\<close>

datatype op = Add int | Remove int | Contains int

fun op_val :: "op \<Rightarrow> int" where
  "op_val (Add v) = v"
| "op_val (Remove v) = v"
| "op_val (Contains v) = v"

fun ref_step :: "int set \<Rightarrow> op \<Rightarrow> int \<times> int set" where
  "ref_step S (Add v) = (if v \<in> S then 0 else 1, insert v S)"
| "ref_step S (Remove v) = (if v \<in> S then 1 else 0, S - {v})"
| "ref_step S (Contains v) = (if v \<in> S then 1 else 0, S)"

fun ref_run :: "int set \<Rightarrow> op list \<Rightarrow> int list" where
  "ref_run S [] = []"
| "ref_run S (x # xs) = (case ref_step S x of (r, S') \<Rightarrow> r # ref_run S' xs)"

fun sl_step ::
  "world \<Rightarrow> (int \<Rightarrow> rat) \<Rightarrow> shift_node list \<Rightarrow> int \<Rightarrow> op \<Rightarrow> (fault + int \<times> world) option"
where
  "sl_step s est tbl table_size (Add v) = sl_add s est tbl table_size v"
| "sl_step s est tbl table_size (Remove v) = sl_remove s est tbl table_size v"
| "sl_step s est tbl table_size (Contains v) = sl_contains s est tbl table_size v"

text \<open>A run returns the results of its calls and the last world; it stops at a fault.\<close>

fun sl_run ::
  "world \<Rightarrow> (int \<Rightarrow> rat) \<Rightarrow> shift_node list \<Rightarrow> int \<Rightarrow> op list \<Rightarrow> (fault + int list \<times> world) option"
where
  "sl_run s est tbl table_size [] = Some (Inr ([], s))"
| "sl_run s est tbl table_size (x # xs) =
     (case sl_step s est tbl table_size x of
        None \<Rightarrow> None
      | Some (Inl e) \<Rightarrow> Some (Inl e)
      | Some (Inr (r, s')) \<Rightarrow>
          (case sl_run s' est tbl table_size xs of
             None \<Rightarrow> None
           | Some (Inl e) \<Rightarrow> Some (Inl e)
           | Some (Inr (rs, s'')) \<Rightarrow> Some (Inr (r # rs, s''))))"

definition results_of :: "(fault + int list \<times> world) option \<Rightarrow> int list option" where
  "results_of r = (case r of Some (Inr (rs, s)) \<Rightarrow> Some rs | _ \<Rightarrow> None)"

definition arr_upd :: "ptr_array \<Rightarrow> nat \<Rightarrow> ptr \<Rightarrow> ptr_array" where
  "arr_upd arr i p = map_option (\<lambda>xs. xs[i := Some p]) arr"

text \<open>
  The world \<open>s'\<close> while \<open>sl_add\<close> links the new node \<open>n\<close> of height \<open>lvl\<close> into the world
  \<open>s\<close>: the slots of \<open>n\<close> hold the successors \<open>su\<close>, and on the levels below \<open>k\<close> the
  predecessors \<open>pr\<close> refer to \<open>n\<close>.
\<close>

definition linked ::
  "world \<Rightarrow> world \<Rightarrow> addr \<Rightarrow> nat \<Rightarrow> (nat \<Rightarrow> ptr) \<Rightarrow> (nat \<Rightarrow> ptr) \<Rightarrow> nat \<Rightarrow> bool"
where
  "linked s s' n lvl pr su k \<longleftrightarrow>
     same_nodes s s' \<and> seed s' = seed s \<and>
     (\<forall>x j. read_next s' x j =
        (if x = Node n \<and> j < lvl then Inr (su j, False)
         else if j < k \<and> x = pr j then Inr (Node n, False)
         else read_next s x j))"

text \<open>The list \<open>ns\<close> with the node \<open>n\<close> of value \<open>v\<close> put in its place.\<close>

definition ins_node :: "world \<Rightarrow> int \<Rightarrow> addr \<Rightarrow> addr list \<Rightarrow> addr list" where
  "ins_node s v n ns = filter (\<lambda>a. nval s a < v) ns @ [n] @ filter (\<lambda>a. \<not> nval s a < v) ns"

text \<open>Example states of the two variants.\<close>

definition table_2 :: "shift_node list" where
  "table_2 = [\<lparr>count = 1, delta = 0, node = Node 1\<rparr>, \<lparr>count = 1, delta = 0, node = Node 0\<rparr>]"

definition added_5 :: world where
  "added_5 = world_after (sl_add (new_set 4) (\<lambda>v. 1 / 2) table_2 2 5)"

definition flagged_5 :: world where
  "flagged_5 = (case set_deleted added_5 (Node 2) of Inr s \<Rightarrow> s | Inl e \<Rightarrow> added_5)"

definition list_after :: "(fault + int \<times> list_world) option \<Rightarrow> list_world" where
  "list_after r = (case r of Some (Inr (x, s)) \<Rightarrow> s | _ \<Rightarrow> \<lparr>lheap = (\<lambda>a. None), lbrk = 0\<rparr>)"

definition list_table_1 :: "shift_node list" where
  "list_table_1 = [\<lparr>count = 1, delta = 0, node = Node 1\<rparr>]"

definition list_removed_5 :: list_world where
  "list_removed_5 =
     list_after (list_sl_remove
       (list_after (list_sl_add (snd (list_sl_set_new \<lparr>lheap = (\<lambda>a. None), lbrk = 0\<rparr>)) 1
          (\<lambda>v. 0) list_table_1 1 5))
       (\<lambda>v. 0) list_table_1 1 5)"

text \<open>A store without any marked forward reference.\<close>

definition unmarked :: "world \<Rightarrow> bool" where
  "unmarked s \<longleftrightarrow> (\<forall>p i r. read_next s p i = Inr r \<longrightarrow> \<not> snd r)"

text \<open>
  Further example states: the new set after \<open>seq_add\<close> of 9, 7 and 3 (nodes at the addresses
  2, 3 and 4, of heights 2, 2 and 1), and that set with the \<open>deleted\<close> flag of the node 7
  set and its references not yet marked, as a remover leaves it between the two steps.
\<close>

definition loaded_973 :: world where
  "loaded_973 =
     world_after (seq_add (world_after (seq_add (world_after (seq_add (new_set 4) 1 9)) 1 7)) 1 3)"



text \<open>
  The \<open>double\<close> nearest to \<open>1/3\<close>, \<open>6004799503160661 * 2^-54\<close>, and an estimator with the values
  0, that number and \<open>3/4\<close>.
\<close>

definition double_third :: rat where
  "double_third = 6004799503160661 / 18014398509481984"

definition est_973 :: "int \<Rightarrow> rat" where
  "est_973 v = (if v \<le> 3 then 0 else if v \<le> 7 then double_third else 3 / 4)"

text \<open>The counts and offsets of a bucket during the walk, within bounds.\<close>

definition entry_rng :: "int \<Rightarrow> int \<Rightarrow> int \<Rightarrow> shift_node \<Rightarrow> bool" where
  "entry_rng c lo hi e \<longleftrightarrow>
     0 \<le> count e \<and> count e \<le> c \<and> (count e = 0 \<longrightarrow> delta e = INT_MAX) \<and>
     (count e \<noteq> 0 \<longrightarrow> lo \<le> delta e \<and> delta e \<le> hi)"

section \<open>The shift-table builder\<close>

lemma read_next_NodeD:
  "read_next s (Node a) i = Inr r \<Longrightarrow>
   \<exists>n. heap s a = Some n \<and> i < length (nexts n) \<and> nexts n ! i = Some r"
  by (auto simp: read_next_def deref_def split: option.splits if_splits)

lemma deref_Node_nval:
  "heap s a = Some n \<Longrightarrow> deref s (Node a) = Inr n \<and> nval s a = val n"
  by (simp add: deref_def nval_def)

lemma bucket_range:
  assumes "0 \<le> est v" "est v < 1" "2 \<le> T"
  shows "0 \<le> bucket est T v" "bucket est T v < T - 1"
    "bucket est T v = \<lfloor>est v * of_int (T - 1)\<rfloor>"
proof -
  have p: "(0::rat) < of_int (T - 1)" using assms(3) by simp
  have nn: "0 \<le> est v * of_int (T - 1)" using assms(1) p by simp
  then show eq: "bucket est T v = \<lfloor>est v * of_int (T - 1)\<rfloor>"
    by (simp add: bucket_def trunc_to_int_def)
  show "0 \<le> bucket est T v" using nn eq by simp
  have "est v * of_int (T - 1) < 1 * of_int (T - 1)"
    using assms(2) p by (intro mult_strict_right_mono) auto
  then have "\<lfloor>est v * of_int (T - 1)\<rfloor> < T - 1"
    by (simp add: floor_less_iff)
  then show "bucket est T v < T - 1" using eq by simp
qed

lemma populate_walk_chain:
  assumes "chain s 0 a xs (Node t)" "read_next s (Node t) 0 = Inr (Null, False)"
    and "\<forall>v. 0 \<le> est v \<and> est v < 1" "2 \<le> T" "length tbl = nat T"
    and "\<forall>x \<in> set xs. ix (nval s x) = \<lfloor>est (nval s x) * of_int (T - 1)\<rfloor>"
  shows "populate_walk_ix s ix (Node a) j tbl =
         Some (Inr (Node (last (a # xs)), ref_walk est tbl j (map (\<lambda>x. (Node x, nval s x)) xs)))"
  using assms(1,5,6)
proof (induction xs arbitrary: a j tbl)
  case Nil
  then show ?case
    using assms(2) by (subst populate_walk_ix.simps) simp
next
  case (Cons x xs)
  from Cons.prems have rn: "read_next s (Node a) 0 = Inr (Node x, False)" and ch: "chain s 0 x xs (Node t)"
    by auto
  from ch obtain r where rx: "read_next s (Node x) 0 = Inr (r, False)" "r \<noteq> Null"
    by (cases xs) auto
  from read_next_NodeD[OF rx(1)] obtain n where n: "heap s x = Some n" by blast
  have vx: "nval s x = val n" using n by (simp add: nval_def)
  let ?k = "ix (val n)"
  have kb: "?k = bucket est T (val n)"
    using Cons.prems(3) vx bucket_range(3)[of est "val n" T] assms(3,4) by simp
  have k: "0 \<le> ?k" "?k < T - 1" "?k = \<lfloor>est (val n) * of_int (T - 1)\<rfloor>"
    using bucket_range[of est "val n" T] assms(3,4) kb by auto
  have lenT: "int (length tbl) = T" using Cons.prems(2) assms(4) by simp
  let ?e0 = "tbl ! nat ?k"
  let ?e1 = "(if j - ?k \<le> delta ?e0 then ?e0\<lparr>delta := j - ?k, node := Node x\<rparr> else ?e0)"
  let ?tbl' = "tbl[nat ?k := ?e1\<lparr>count := count ?e1 + 1\<rparr>]"
  have IH: "populate_walk_ix s ix (Node x) (j + 1) ?tbl' =
       Some (Inr (Node (last (x # xs)), ref_walk est ?tbl' (j + 1) (map (\<lambda>x. (Node x, nval s x)) xs)))"
    by (rule Cons.IH[OF ch]) (use Cons.prems(2,3) in simp_all)
  have tg: "tab_get tbl ?k = Inr ?e0"
    using k lenT by (simp add: tab_get_def)
  have "populate_walk_ix s ix (Node a) j tbl = populate_walk_ix s ix (Node x) (j + 1) ?tbl'"
    apply (subst populate_walk_ix.simps)
    using rn rx n tg by (simp add: deref_def Let_def)
  also note IH
  finally show ?case
    using n k lenT by (simp add: nval_def Let_def ref_bucket_def)
qed

lemma backfill_total:
  "n \<le> length tbl \<Longrightarrow> (n = length tbl \<longrightarrow> 0 < n \<and> count (tbl ! (n - 1)) \<noteq> 0) \<Longrightarrow>
   backfill tbl n = Inr (ref_fill tbl n)"
proof (induction n arbitrary: tbl)
  case 0
  then show ?case by simp
next
  case (Suc j)
  have jlt: "j < length tbl" using Suc.prems(1) by simp
  show ?case
  proof (cases "count (tbl ! j) = 0")
    case True
    have "Suc j \<noteq> length tbl"
    proof
      assume "Suc j = length tbl"
      with Suc.prems(2) have "count (tbl ! (Suc j - 1)) \<noteq> 0" by simp
      with True show False by simp
    qed
    with Suc.prems(1) have sj: "Suc j < length tbl" by simp
    let ?t = "tbl[j := \<lparr>count = count (tbl ! Suc j), delta = delta (tbl ! Suc j) + 1,
                         node = node (tbl ! Suc j)\<rparr>]"
    have "backfill ?t j = Inr (ref_fill ?t j)"
      by (rule Suc.IH) (use jlt in auto)
    with True jlt sj show ?thesis
      by (simp add: tab_get_def nat_add_distrib)
  next
    case False
    have "backfill tbl j = Inr (ref_fill tbl j)"
      by (rule Suc.IH) (use jlt in auto)
    with False jlt show ?thesis
      by (simp add: tab_get_def)
  qed
qed

lemma length_ref_walk [simp]: "length (ref_walk est tbl j ns) = length tbl"
  by (induction ns arbitrary: tbl j) (auto simp: Let_def)

lemma length_ref_fill [simp]: "length (ref_fill tbl n) = length tbl"
  by (induction n arbitrary: tbl) auto

text \<open>The walk leaves a bucket alone that no node maps to.\<close>

lemma ref_walk_update_commute:
  assumes "\<forall>pv \<in> set ns. ref_bucket est (length tbl) (snd pv) \<noteq> m"
  shows "(ref_walk est tbl j ns)[m := e] = ref_walk est (tbl[m := e]) j ns"
  using assms
proof (induction ns arbitrary: tbl j)
  case Nil
  then show ?case by simp
next
  case (Cons pv ns)
  obtain p v where pv: "pv = (p, v)" by (cases pv)
  define k where "k = ref_bucket est (length tbl) v"
  have km: "k \<noteq> m" using Cons.prems pv k_def by auto
  define e1 where "e1 = (if j - int k \<le> delta (tbl ! k) then (tbl ! k)\<lparr>delta := j - int k, node := p\<rparr> else tbl ! k)"
  define e2 where "e2 = e1\<lparr>count := count e1 + 1\<rparr>"
  have l: "ref_walk est tbl j (pv # ns) = ref_walk est (tbl[k := e2]) (j + 1) ns"
    by (simp add: pv Let_def k_def e1_def e2_def)
  have r: "ref_walk est (tbl[m := e]) j (pv # ns) = ref_walk est (tbl[m := e, k := e2]) (j + 1) ns"
    using km by (simp add: pv Let_def k_def e1_def e2_def)
  have "(ref_walk est (tbl[k := e2]) (j + 1) ns)[m := e] = ref_walk est (tbl[k := e2, m := e]) (j + 1) ns"
    by (rule Cons.IH) (use Cons.prems in simp)
  also have "tbl[k := e2, m := e] = tbl[m := e, k := e2]"
    using km by (simp add: list_update_swap)
  finally show ?case using l r by simp
qed

lemma populate_ix_eq_ref:
  assumes ch: "chain s 0 h xs (Node t)" and tl: "read_next s (Node t) 0 = Inr (Null, False)"
    and est: "\<forall>v. 0 \<le> est v \<and> est v < 1" and T: "2 \<le> T" and len: "length tbl = nat T"
    and ix: "\<forall>x \<in> set xs. ix (nval s x) = \<lfloor>est (nval s x) * of_int (T - 1)\<rfloor>"
  shows "populate_shift_table_ix s h tbl ix T =
         Some (Inr (ref_build est tbl (Node h) (Node t) (map (\<lambda>x. (Node x, nval s x)) xs)))"
proof -
  let ?ns = "map (\<lambda>x. (Node x, nval s x)) xs"
  let ?hd = "\<lparr>count = 1, delta = 0, node = Node h\<rparr>"
  let ?tl = "\<lparr>count = 1, delta = 0, node = Node t\<rparr>"
  let ?t1 = "tbl[0 := ?hd]"
  let ?m = "length tbl - 1"
  have lenT: "int (length tbl) = T" "0 < length tbl" using len T by auto
  have s1: "tab_set tbl 0 ?hd = Inr ?t1"
    using lenT T by (simp add: tab_set_def)
  have w: "populate_walk_ix s ix (Node h) 0 ?t1 = Some (Inr (Node (last (h # xs)), ref_walk est ?t1 0 ?ns))"
    by (rule populate_walk_chain[OF ch tl est T _ ix]) (simp add: len)
  have lastn: "read_next s (Node (last (h # xs))) 0 = Inr (Node t, False)"
    using ch by (induction xs arbitrary: h) auto
  have m: "nat (T - 1) = ?m" using lenT by auto
  have s2: "tab_set (ref_walk est ?t1 0 ?ns) (T - 1) ?tl = Inr ((ref_walk est ?t1 0 ?ns)[?m := ?tl])"
    using lenT T m by (simp add: tab_set_def)
  have nb: "\<forall>pv \<in> set ?ns. ref_bucket est (length ?t1) (snd pv) \<noteq> ?m"
  proof
    fix pv assume "pv \<in> set ?ns"
    have "\<lfloor>est (snd pv) * of_int (T - 1)\<rfloor> < T - 1"
      using bucket_range(2,3)[of est "snd pv" T] est T by auto
    moreover have "0 \<le> \<lfloor>est (snd pv) * of_int (T - 1)\<rfloor>"
      using bucket_range(1,3)[of est "snd pv" T] est T by auto
    ultimately have "nat \<lfloor>est (snd pv) * of_int (T - 1)\<rfloor> < nat (T - 1)" using T by linarith
    then show "ref_bucket est (length ?t1) (snd pv) \<noteq> ?m"
      using m lenT by (simp add: ref_bucket_def)
  qed
  have comm: "(ref_walk est ?t1 0 ?ns)[?m := ?tl] = ref_walk est (ref_seed tbl (Node h) (Node t)) 0 ?ns"
    using ref_walk_update_commute[OF nb, of 0 ?tl] by (simp add: ref_seed_def)
  have cnt: "count ((ref_walk est ?t1 0 ?ns)[?m := ?tl] ! (nat T - 1)) \<noteq> 0"
    using lenT m by (simp add: len)
  have bf: "backfill ((ref_walk est ?t1 0 ?ns)[?m := ?tl]) (nat T) =
        Inr (ref_fill ((ref_walk est ?t1 0 ?ns)[?m := ?tl]) (nat T))"
    by (rule backfill_total) (use cnt lenT len in auto)
  show ?thesis
    unfolding populate_shift_table_ix_def ref_build_def
    using s1 w lastn s2 bf comm len by simp
qed

lemma populate_eq_ref:
  assumes ch: "chain s 0 h xs (Node t)" and tl: "read_next s (Node t) 0 = Inr (Null, False)"
    and est: "\<forall>v. 0 \<le> est v \<and> est v < 1" and T: "2 \<le> T" and len: "length tbl = nat T"
  shows "populate_shift_table s h tbl est T =
         Some (Inr (ref_build est tbl (Node h) (Node t) (map (\<lambda>x. (Node x, nval s x)) xs)))"
proof -
  have "\<forall>x \<in> set xs. bucket est T (nval s x) = \<lfloor>est (nval s x) * of_int (T - 1)\<rfloor>"
    using bucket_range(3)[of est _ T] est T by simp
  from populate_ix_eq_ref[OF ch tl est T len this] show ?thesis
    by (simp add: populate_shift_table_def)
qed

lemma ref_walk_entry_ok:
  assumes "\<forall>i<length tbl. entry_ok N (tbl ! i)"
    and "\<forall>pv \<in> set ns. fst pv \<in> N \<and> ref_bucket est (length tbl) (snd pv) < length tbl"
    and "0 \<le> j" "j + int (length ns) \<le> INT_MAX + 1"
  shows "\<forall>i<length tbl. entry_ok N (ref_walk est tbl j ns ! i)"
  using assms
proof (induction ns arbitrary: tbl j)
  case Nil
  then show ?case by simp
next
  case (Cons pv ns)
  obtain p v where pv: "pv = (p, v)" by (cases pv)
  define k where "k = ref_bucket est (length tbl) v"
  define e1 where "e1 = (if j - int k \<le> delta (tbl ! k) then (tbl ! k)\<lparr>delta := j - int k, node := p\<rparr> else tbl ! k)"
  define e2 where "e2 = e1\<lparr>count := count e1 + 1\<rparr>"
  have l: "ref_walk est tbl j (pv # ns) = ref_walk est (tbl[k := e2]) (j + 1) ns"
    by (simp add: pv Let_def k_def e1_def e2_def)
  have k: "k < length tbl" and p: "p \<in> N" using Cons.prems(2) pv k_def by auto
  have ok: "entry_ok N (tbl ! k)" using Cons.prems(1) k by simp
  have jk: "j - int k \<le> INT_MAX" using Cons.prems(3,4) by simp
  have "entry_ok N e2"
    using ok p jk unfolding entry_ok_def e2_def e1_def by auto
  then have a: "\<forall>i<length (tbl[k := e2]). entry_ok N (tbl[k := e2] ! i)"
    using Cons.prems(1) k by (auto simp: nth_list_update)
  have "\<forall>i<length (tbl[k := e2]). entry_ok N (ref_walk est (tbl[k := e2]) (j + 1) ns ! i)"
    by (rule Cons.IH[OF a]) (use Cons.prems in auto)
  then show ?case using l by simp
qed

lemma ref_fill_nodes:
  assumes "n \<le> length tbl" "\<forall>i<length tbl. entry_ok N (tbl ! i)"
    and "\<forall>i. n \<le> i \<and> i < length tbl \<longrightarrow> count (tbl ! i) \<noteq> 0"
    and "n = length tbl \<longrightarrow> 0 < n \<and> count (tbl ! (n - 1)) \<noteq> 0"
  shows "\<forall>i<length tbl. node (ref_fill tbl n ! i) \<in> N"
  using assms
proof (induction n arbitrary: tbl)
  case 0
  then show ?case by (auto simp: entry_ok_def)
next
  case (Suc j)
  have jlt: "j < length tbl" using Suc.prems(1) by simp
  show ?case
  proof (cases "count (tbl ! j) = 0")
    case True
    have "Suc j \<noteq> length tbl"
    proof
      assume "Suc j = length tbl"
      with Suc.prems(4) have "count (tbl ! (Suc j - 1)) \<noteq> 0" by simp
      with True show False by simp
    qed
    with Suc.prems(1) have sj: "Suc j < length tbl" by simp
    define e where "e = \<lparr>count = count (tbl ! Suc j), delta = delta (tbl ! Suc j) + 1, node = node (tbl ! Suc j)\<rparr>"
    have c: "count (tbl ! Suc j) \<noteq> 0" using Suc.prems(3) sj by simp
    moreover have "entry_ok N (tbl ! Suc j)" using Suc.prems(2) sj by simp
    ultimately have eok: "entry_ok N e" "count e \<noteq> 0"
      by (auto simp: entry_ok_def e_def)
    have "\<forall>i<length (tbl[j := e]). node (ref_fill (tbl[j := e]) j ! i) \<in> N"
    proof (rule Suc.IH)
      show "j \<le> length (tbl[j := e])" using jlt by simp
      show "\<forall>i<length (tbl[j := e]). entry_ok N (tbl[j := e] ! i)"
        using Suc.prems(2) eok jlt by (auto simp: nth_list_update)
      show "\<forall>i. j \<le> i \<and> i < length (tbl[j := e]) \<longrightarrow> count (tbl[j := e] ! i) \<noteq> 0"
      proof (intro allI impI)
        fix i assume i: "j \<le> i \<and> i < length (tbl[j := e])"
        show "count (tbl[j := e] ! i) \<noteq> 0"
        proof (cases "i = j")
          case True then show ?thesis using eok jlt by simp
        next
          case False
          then have "Suc j \<le> i" using i by simp
          then show ?thesis using Suc.prems(3) i False by simp
        qed
      qed
      show "j = length (tbl[j := e]) \<longrightarrow> 0 < j \<and> count (tbl[j := e] ! (j - 1)) \<noteq> 0"
        using jlt by simp
    qed
    then show ?thesis using True by (simp add: e_def)
  next
    case False
    have "\<forall>i<length tbl. node (ref_fill tbl j ! i) \<in> N"
    proof (rule Suc.IH)
      show "j \<le> length tbl" using jlt by simp
      show "\<forall>i<length tbl. entry_ok N (tbl ! i)" by (rule Suc.prems(2))
      show "\<forall>i. j \<le> i \<and> i < length tbl \<longrightarrow> count (tbl ! i) \<noteq> 0"
      proof (intro allI impI)
        fix i assume i: "j \<le> i \<and> i < length tbl"
        show "count (tbl ! i) \<noteq> 0"
        proof (cases "i = j")
          case True then show ?thesis using False by simp
        next
          case ne: False
          then have "Suc j \<le> i" using i by simp
          then show ?thesis using Suc.prems(3) i by simp
        qed
      qed
      show "j = length tbl \<longrightarrow> 0 < j \<and> count (tbl ! (j - 1)) \<noteq> 0" using jlt by simp
    qed
    then show ?thesis using False by simp
  qed
qed

lemma ref_build_nodes:
  assumes T: "2 \<le> T" and est: "\<forall>v. 0 \<le> est v \<and> est v < 1"
    and ns: "\<forall>pv \<in> set ns. fst pv \<in> N" and h: "h \<in> N" and t: "t \<in> N"
    and len: "int (length ns) \<le> INT_MAX + 1"
  shows "\<forall>e \<in> set (ref_build est (new_shift_table T) h t ns). node e \<in> N"
proof -
  let ?t0 = "new_shift_table T"
  let ?t1 = "ref_seed ?t0 h t"
  let ?t2 = "ref_walk est ?t1 0 ns"
  have l0: "length ?t0 = nat T" by (simp add: new_shift_table_def)
  have l1: "length ?t1 = nat T" by (simp add: ref_seed_def l0)
  have ok1: "\<forall>i<length ?t1. entry_ok N (?t1 ! i)"
    using h t by (auto simp: ref_seed_def new_shift_table_def entry_ok_def nth_list_update)
  have bk: "\<forall>pv \<in> set ns. fst pv \<in> N \<and> ref_bucket est (length ?t1) (snd pv) < length ?t1"
  proof
    fix pv assume pv: "pv \<in> set ns"
    have "\<lfloor>est (snd pv) * of_int (T - 1)\<rfloor> < T - 1"
      using bucket_range(2,3)[of est "snd pv" T] est T by auto
    then have "nat \<lfloor>est (snd pv) * of_int (T - 1)\<rfloor> < nat T" using T by linarith
    moreover have "int (nat T) = T" using T by simp
    ultimately show "fst pv \<in> N \<and> ref_bucket est (length ?t1) (snd pv) < length ?t1"
      using ns pv by (simp add: ref_bucket_def l1)
  qed
  have ok2: "\<forall>i<length ?t1. entry_ok N (?t2 ! i)"
    by (rule ref_walk_entry_ok[OF ok1 bk]) (use len in auto)
  have nb: "\<forall>pv \<in> set ns. ref_bucket est (length ?t1) (snd pv) \<noteq> nat T - 1"
  proof
    fix pv assume "pv \<in> set ns"
    have "\<lfloor>est (snd pv) * of_int (T - 1)\<rfloor> < T - 1"
      using bucket_range(2,3)[of est "snd pv" T] est T by auto
    moreover have "0 \<le> \<lfloor>est (snd pv) * of_int (T - 1)\<rfloor>"
      using bucket_range(1,3)[of est "snd pv" T] est T by auto
    ultimately have "nat \<lfloor>est (snd pv) * of_int (T - 1)\<rfloor> < nat (T - 1)" using T by linarith
    moreover have "int (nat T) = T" using T by simp
    moreover have "nat (T - 1) = nat T - 1" using T by simp
    ultimately show "ref_bucket est (length ?t1) (snd pv) \<noteq> nat T - 1"
      by (simp add: ref_bucket_def l1)
  qed
  have "?t2[nat T - 1 := \<lparr>count = 1, delta = 0, node = t\<rparr>] = ref_walk est (?t1[nat T - 1 := \<lparr>count = 1, delta = 0, node = t\<rparr>]) 0 ns"
    by (rule ref_walk_update_commute[OF nb])
  moreover have "?t1[nat T - 1 := \<lparr>count = 1, delta = 0, node = t\<rparr>] = ?t1"
    by (simp add: ref_seed_def l0)
  ultimately have "?t2 ! (nat T - 1) = \<lparr>count = 1, delta = 0, node = t\<rparr>"
    using T by (metis diff_less l1 length_ref_walk nth_list_update_eq zero_less_nat_eq zero_less_one less_le_trans zero_less_numeral)
  then have top: "count (?t2 ! (nat T - 1)) \<noteq> 0" by simp
  have "\<forall>i<length ?t2. node (ref_fill ?t2 (nat T) ! i) \<in> N"
  proof (rule ref_fill_nodes)
    show "nat T \<le> length ?t2" by (simp add: l1)
    show "\<forall>i<length ?t2. entry_ok N (?t2 ! i)" using ok2 by simp
    show "\<forall>i. nat T \<le> i \<and> i < length ?t2 \<longrightarrow> count (?t2 ! i) \<noteq> 0" by (simp add: l1)
    show "nat T = length ?t2 \<longrightarrow> 0 < nat T \<and> count (?t2 ! (nat T - 1)) \<noteq> 0"
      using top T by (simp add: l1)
  qed
  then show ?thesis
    unfolding ref_build_def by (auto simp: in_set_conv_nth l0 l1)
qed

text \<open>The counts and offsets the builder computes stay within the range of \<open>int\<close>.\<close>

lemma ref_walk_rng:
  assumes "\<forall>i<length tbl. entry_rng c lo hi (tbl ! i)"
    and "\<forall>pv \<in> set ns. ref_bucket est (length tbl) (snd pv) < length tbl"
    and "lo \<le> j - int (length tbl)" "j + int (length ns) \<le> hi" "hi \<le> INT_MAX"
  shows "\<forall>i<length tbl. entry_rng (c + int (length ns)) lo hi (ref_walk est tbl j ns ! i)"
  using assms
proof (induction ns arbitrary: tbl j c)
  case Nil
  then show ?case by simp
next
  case (Cons pv ns)
  obtain p v where pv: "pv = (p, v)" by (cases pv)
  define k where "k = ref_bucket est (length tbl) v"
  define e1 where "e1 = (if j - int k \<le> delta (tbl ! k) then (tbl ! k)\<lparr>delta := j - int k, node := p\<rparr> else tbl ! k)"
  define e2 where "e2 = e1\<lparr>count := count e1 + 1\<rparr>"
  have l: "ref_walk est tbl j (pv # ns) = ref_walk est (tbl[k := e2]) (j + 1) ns"
    by (simp add: pv Let_def k_def e1_def e2_def)
  have k: "k < length tbl" using Cons.prems(2) pv k_def by auto
  have ok: "entry_rng c lo hi (tbl ! k)" using Cons.prems(1) k by simp
  have jk: "lo \<le> j - int k" "j - int k \<le> hi" "j - int k \<le> INT_MAX"
    using Cons.prems(3,4,5) k by simp_all
  have "entry_rng (c + 1) lo hi e2"
    using ok jk unfolding entry_rng_def e2_def e1_def by auto
  moreover have "\<forall>i<length tbl. entry_rng (c + 1) lo hi (tbl ! i)"
    using Cons.prems(1) by (auto simp: entry_rng_def)
  ultimately have a: "\<forall>i<length (tbl[k := e2]). entry_rng (c + 1) lo hi (tbl[k := e2] ! i)"
    using k by (auto simp: nth_list_update)
  have "\<forall>i<length (tbl[k := e2]). entry_rng (c + 1 + int (length ns)) lo hi
          (ref_walk est (tbl[k := e2]) (j + 1) ns ! i)"
    by (rule Cons.IH[OF a]) (use Cons.prems in auto)
  moreover have "c + 1 + int (length ns) = c + int (length (pv # ns))" by simp
  ultimately show ?case using l by simp
qed

lemma ref_fill_rng:
  assumes "n \<le> length tbl"
    and "\<forall>i<length tbl. 0 \<le> count (tbl ! i) \<and> count (tbl ! i) \<le> c \<and>
           (count (tbl ! i) \<noteq> 0 \<longrightarrow> lo \<le> delta (tbl ! i) \<and> delta (tbl ! i) \<le> hi + int (length tbl - 1 - i))"
    and "\<forall>i. n \<le> i \<and> i < length tbl \<longrightarrow> count (tbl ! i) \<noteq> 0"
    and "n = length tbl \<longrightarrow> 0 < n \<and> count (tbl ! (n - 1)) \<noteq> 0"
  shows "\<forall>i<length tbl. 0 < count (ref_fill tbl n ! i) \<and> count (ref_fill tbl n ! i) \<le> c \<and>
           lo \<le> delta (ref_fill tbl n ! i) \<and> delta (ref_fill tbl n ! i) \<le> hi + int (length tbl - 1 - i)"
  using assms
proof (induction n arbitrary: tbl)
  case 0
  then show ?case by (simp add: order_less_le)
next
  case (Suc j)
  have jlt: "j < length tbl" using Suc.prems(1) by simp
  show ?case
  proof (cases "count (tbl ! j) = 0")
    case True
    have "Suc j \<noteq> length tbl"
    proof
      assume "Suc j = length tbl"
      with Suc.prems(4) have "count (tbl ! (Suc j - 1)) \<noteq> 0" by simp
      with True show False by simp
    qed
    with Suc.prems(1) have sj: "Suc j < length tbl" by simp
    define e where "e = \<lparr>count = count (tbl ! Suc j), delta = delta (tbl ! Suc j) + 1, node = node (tbl ! Suc j)\<rparr>"
    have c: "count (tbl ! Suc j) \<noteq> 0" using Suc.prems(3) sj by simp
    have nb: "0 \<le> count (tbl ! Suc j) \<and> count (tbl ! Suc j) \<le> c \<and>
        lo \<le> delta (tbl ! Suc j) \<and> delta (tbl ! Suc j) \<le> hi + int (length tbl - 1 - Suc j)"
      using Suc.prems(2) sj c by blast
    have d: "int (length tbl - 1 - Suc j) + 1 = int (length tbl - 1 - j)" using sj by simp
    have eok: "0 \<le> count e" "count e \<le> c" "count e \<noteq> 0" "lo \<le> delta e"
      "delta e \<le> hi + int (length tbl - 1 - j)"
      using nb c d by (simp_all add: e_def)
    have "\<forall>i<length (tbl[j := e]). 0 < count (ref_fill (tbl[j := e]) j ! i) \<and>
            count (ref_fill (tbl[j := e]) j ! i) \<le> c \<and>
            lo \<le> delta (ref_fill (tbl[j := e]) j ! i) \<and>
            delta (ref_fill (tbl[j := e]) j ! i) \<le> hi + int (length (tbl[j := e]) - 1 - i)"
    proof (rule Suc.IH)
      show "j \<le> length (tbl[j := e])" using jlt by simp
      show "\<forall>i<length (tbl[j := e]). 0 \<le> count (tbl[j := e] ! i) \<and> count (tbl[j := e] ! i) \<le> c \<and>
           (count (tbl[j := e] ! i) \<noteq> 0 \<longrightarrow> lo \<le> delta (tbl[j := e] ! i) \<and>
              delta (tbl[j := e] ! i) \<le> hi + int (length (tbl[j := e]) - 1 - i))"
      proof (intro allI impI)
        fix i assume i: "i < length (tbl[j := e])"
        show "0 \<le> count (tbl[j := e] ! i) \<and> count (tbl[j := e] ! i) \<le> c \<and>
           (count (tbl[j := e] ! i) \<noteq> 0 \<longrightarrow> lo \<le> delta (tbl[j := e] ! i) \<and>
              delta (tbl[j := e] ! i) \<le> hi + int (length (tbl[j := e]) - 1 - i))"
        proof (cases "i = j")
          case True then show ?thesis using eok jlt by simp
        next
          case False then show ?thesis using Suc.prems(2) i by simp
        qed
      qed
      show "\<forall>i. j \<le> i \<and> i < length (tbl[j := e]) \<longrightarrow> count (tbl[j := e] ! i) \<noteq> 0"
      proof (intro allI impI)
        fix i assume i: "j \<le> i \<and> i < length (tbl[j := e])"
        show "count (tbl[j := e] ! i) \<noteq> 0"
        proof (cases "i = j")
          case True then show ?thesis using eok jlt by simp
        next
          case False
          then have "Suc j \<le> i" using i by simp
          then show ?thesis using Suc.prems(3) i False by simp
        qed
      qed
      show "j = length (tbl[j := e]) \<longrightarrow> 0 < j \<and> count (tbl[j := e] ! (j - 1)) \<noteq> 0"
        using jlt by simp
    qed
    then show ?thesis using True by (simp add: e_def)
  next
    case False
    have "\<forall>i<length tbl. 0 < count (ref_fill tbl j ! i) \<and> count (ref_fill tbl j ! i) \<le> c \<and>
           lo \<le> delta (ref_fill tbl j ! i) \<and> delta (ref_fill tbl j ! i) \<le> hi + int (length tbl - 1 - i)"
    proof (rule Suc.IH)
      show "j \<le> length tbl" using jlt by simp
      show "\<forall>i<length tbl. 0 \<le> count (tbl ! i) \<and> count (tbl ! i) \<le> c \<and>
           (count (tbl ! i) \<noteq> 0 \<longrightarrow> lo \<le> delta (tbl ! i) \<and> delta (tbl ! i) \<le> hi + int (length tbl - 1 - i))"
        by (rule Suc.prems(2))
      show "\<forall>i. j \<le> i \<and> i < length tbl \<longrightarrow> count (tbl ! i) \<noteq> 0"
      proof (intro allI impI)
        fix i assume i: "j \<le> i \<and> i < length tbl"
        show "count (tbl ! i) \<noteq> 0"
        proof (cases "i = j")
          case True then show ?thesis using False by simp
        next
          case ne: False
          then have "Suc j \<le> i" using i by simp
          then show ?thesis using Suc.prems(3) i by simp
        qed
      qed
      show "j = length tbl \<longrightarrow> 0 < j \<and> count (tbl ! (j - 1)) \<noteq> 0" using jlt by simp
    qed
    then show ?thesis using False by simp
  qed
qed


lemma ref_build_rng:
  assumes T: "2 \<le> T" and est: "\<forall>v. 0 \<le> est v \<and> est v < 1"
    and len: "int (length ns) + T \<le> INT_MAX"
  shows "\<forall>e \<in> set (ref_build est (new_shift_table T) h t ns).
           0 < count e \<and> count e \<le> INT_MAX \<and> INT_MIN \<le> delta e \<and> delta e \<le> INT_MAX"
proof -
  let ?t0 = "new_shift_table T"
  let ?t1 = "ref_seed ?t0 h t"
  let ?t2 = "ref_walk est ?t1 0 ns"
  let ?c = "1 + int (length ns)"
  let ?hi = "int (length ns)"
  have l0: "length ?t0 = nat T" by (simp add: new_shift_table_def)
  have l1: "length ?t1 = nat T" by (simp add: ref_seed_def l0)
  have iT: "int (nat T) = T" using T by simp
  have ok1: "\<forall>i<length ?t1. entry_rng 1 (- T) ?hi (?t1 ! i)"
    using T by (auto simp: ref_seed_def new_shift_table_def entry_rng_def nth_list_update)
  have bk: "\<forall>pv \<in> set ns. ref_bucket est (length ?t1) (snd pv) < length ?t1"
  proof
    fix pv assume pv: "pv \<in> set ns"
    have "\<lfloor>est (snd pv) * of_int (T - 1)\<rfloor> < T - 1"
      using bucket_range(2,3)[of est "snd pv" T] est T by auto
    then have "nat \<lfloor>est (snd pv) * of_int (T - 1)\<rfloor> < nat T" using T by linarith
    then show "ref_bucket est (length ?t1) (snd pv) < length ?t1"
      using iT by (simp add: ref_bucket_def l1)
  qed
  have hi: "?hi \<le> INT_MAX" using len T by simp
  have ok2: "\<forall>i<length ?t1. entry_rng ?c (- T) ?hi (?t2 ! i)"
    using ref_walk_rng[OF ok1 bk, of 0] hi by (simp add: l1 iT)
  have nb: "\<forall>pv \<in> set ns. ref_bucket est (length ?t1) (snd pv) \<noteq> nat T - 1"
  proof
    fix pv assume "pv \<in> set ns"
    have "\<lfloor>est (snd pv) * of_int (T - 1)\<rfloor> < T - 1"
      using bucket_range(2,3)[of est "snd pv" T] est T by auto
    moreover have "0 \<le> \<lfloor>est (snd pv) * of_int (T - 1)\<rfloor>"
      using bucket_range(1,3)[of est "snd pv" T] est T by auto
    ultimately have "nat \<lfloor>est (snd pv) * of_int (T - 1)\<rfloor> < nat (T - 1)" using T by linarith
    moreover have "nat (T - 1) = nat T - 1" using T by simp
    ultimately show "ref_bucket est (length ?t1) (snd pv) \<noteq> nat T - 1"
      using iT by (simp add: ref_bucket_def l1)
  qed
  have "?t2[nat T - 1 := \<lparr>count = 1, delta = 0, node = t\<rparr>] =
        ref_walk est (?t1[nat T - 1 := \<lparr>count = 1, delta = 0, node = t\<rparr>]) 0 ns"
    by (rule ref_walk_update_commute[OF nb])
  moreover have "?t1[nat T - 1 := \<lparr>count = 1, delta = 0, node = t\<rparr>] = ?t1"
    by (simp add: ref_seed_def l0)
  moreover have "nat T - 1 < length ?t2" using T by (simp add: l1)
  ultimately have "?t2 ! (nat T - 1) = \<lparr>count = 1, delta = 0, node = t\<rparr>"
    by (metis nth_list_update_eq)
  then have top: "count (?t2 ! (nat T - 1)) \<noteq> 0" by simp
  have r: "\<forall>i<length ?t2. 0 < count (ref_fill ?t2 (nat T) ! i) \<and> count (ref_fill ?t2 (nat T) ! i) \<le> ?c \<and>
           - T \<le> delta (ref_fill ?t2 (nat T) ! i) \<and>
           delta (ref_fill ?t2 (nat T) ! i) \<le> ?hi + int (length ?t2 - 1 - i)"
  proof (rule ref_fill_rng)
    show "nat T \<le> length ?t2" by (simp add: l1)
    show "\<forall>i<length ?t2. 0 \<le> count (?t2 ! i) \<and> count (?t2 ! i) \<le> ?c \<and>
        (count (?t2 ! i) \<noteq> 0 \<longrightarrow> - T \<le> delta (?t2 ! i) \<and> delta (?t2 ! i) \<le> ?hi + int (length ?t2 - 1 - i))"
      using ok2 by (auto simp: entry_rng_def)
    show "\<forall>i. nat T \<le> i \<and> i < length ?t2 \<longrightarrow> count (?t2 ! i) \<noteq> 0" by (simp add: l1)
    show "nat T = length ?t2 \<longrightarrow> 0 < nat T \<and> count (?t2 ! (nat T - 1)) \<noteq> 0"
      using top T by (simp add: l1)
  qed
  show ?thesis
    unfolding ref_build_def
  proof
    fix e assume "e \<in> set (ref_fill ?t2 (length ?t0))"
    then obtain i where i: "i < nat T" and e: "e = ref_fill ?t2 (nat T) ! i"
      by (auto simp: in_set_conv_nth l0 l1)
    from r i have b: "0 < count e" "count e \<le> ?c" "- T \<le> delta e"
      "delta e \<le> ?hi + int (length ?t2 - 1 - i)"
      by (simp_all add: e l1)
    have "nat T - 1 - i \<le> nat T" by simp
    then have "int (nat T - 1 - i) \<le> int (nat T)" by (simp only: of_nat_le_iff)
    then have "int (length ?t2 - 1 - i) \<le> T" unfolding l1 length_ref_walk iT .
    then show "0 < count e \<and> count e \<le> INT_MAX \<and> INT_MIN \<le> delta e \<and> delta e \<le> INT_MAX"
      using b len T by (simp add: INT_MIN_def INT_MAX_def)
  qed
qed

text \<open>
  The rounding of the product: \<open>log2_floor\<close> is the exponent, and \<open>double_round x\<close>, a multiple
  of the spacing \<open>2^(e-52)\<close> at that exponent, lies within half that spacing of \<open>x\<close>.
\<close>

lemma round_even_near: "\<bar>of_int (round_even y) - y\<bar> \<le> 1 / 2"
proof -
  have "of_int \<lfloor>y\<rfloor> \<le> y" "y < of_int \<lfloor>y\<rfloor> + 1" by linarith+
  then show ?thesis
    unfolding round_even_def Let_def by (auto simp: abs_le_iff)
qed

lemma log2_floor_bounds:
  assumes "0 < x"
  shows "power_int 2 (log2_floor x) \<le> x" and "x < power_int 2 (log2_floor x + 1)"
proof -
  obtain a b where q: "quotient_of x = (a, b)" by (cases "quotient_of x")
  have b: "0 < b" using q quotient_of_denom_pos by blast
  have x: "x = of_int a / of_int b" using q by (rule quotient_of_div)
  have a: "0 < a" using assms b x by (simp add: zero_less_divide_iff)
  define la where "la = bitlen a"
  define lb where "lb = bitlen b"
  have la: "0 < la" "(2::rat) ^ nat (la - 1) \<le> of_int a" "(of_int a :: rat) < 2 ^ nat la"
  proof -
    from bitlen_bounds[OF a] have "2 ^ nat (la - 1) \<le> a" "a < 2 ^ nat la" by (simp_all add: la_def)
    then have "(of_int (2 ^ nat (la - 1)) :: rat) \<le> of_int a" "(of_int a :: rat) < of_int (2 ^ nat la)"
      by (simp_all only: of_int_le_iff of_int_less_iff)
    then show "(2::rat) ^ nat (la - 1) \<le> of_int a" "(of_int a :: rat) < 2 ^ nat la" by simp_all
    show "0 < la"
    proof (rule ccontr)
      assume "\<not> 0 < la"
      then have "nat la = 0" by simp
      with \<open>a < 2 ^ nat la\<close> have "a < 1" by simp
      with a show False by simp
    qed
  qed
  have lb: "0 < lb" "(2::rat) ^ nat (lb - 1) \<le> of_int b" "(of_int b :: rat) < 2 ^ nat lb"
  proof -
    from bitlen_bounds[OF b] have "2 ^ nat (lb - 1) \<le> b" "b < 2 ^ nat lb" by (simp_all add: lb_def)
    then have "(of_int (2 ^ nat (lb - 1)) :: rat) \<le> of_int b" "(of_int b :: rat) < of_int (2 ^ nat lb)"
      by (simp_all only: of_int_le_iff of_int_less_iff)
    then show "(2::rat) ^ nat (lb - 1) \<le> of_int b" "(of_int b :: rat) < 2 ^ nat lb" by simp_all
    show "0 < lb"
    proof (rule ccontr)
      assume "\<not> 0 < lb"
      then have "nat lb = 0" by simp
      with \<open>b < 2 ^ nat lb\<close> have "b < 1" by simp
      with b show False by simp
    qed
  qed
  have pa: "power_int (2::rat) (la - 1) \<le> of_int a" "(of_int a :: rat) < power_int 2 la"
    using la by (simp_all add: power_int_def)
  have pb: "power_int (2::rat) (lb - 1) \<le> of_int b" "(of_int b :: rat) < power_int 2 lb"
    using lb by (simp_all add: power_int_def)
  have bp: "(0::rat) < of_int b" using b by simp
  have up: "x < power_int 2 (la - lb + 1)"
  proof -
    have "of_int a < power_int (2::rat) la" by (rule pa(2))
    also have "\<dots> = power_int 2 (la - lb + 1) * power_int 2 (lb - 1)"
      by (simp flip: power_int_add)
    also have "\<dots> \<le> power_int 2 (la - lb + 1) * of_int b"
      using pb(1) by (intro mult_left_mono) simp_all
    finally show ?thesis using bp by (simp add: x pos_divide_less_eq)
  qed
  have lo: "power_int 2 (la - lb - 1) < x"
  proof -
    have "power_int (2::rat) (la - lb - 1) * of_int b < power_int 2 (la - lb - 1) * power_int 2 lb"
      using pb(2) by (intro mult_strict_left_mono) simp_all
    also have "\<dots> = power_int 2 (la - 1)" by (simp flip: power_int_add)
    also have "\<dots> \<le> of_int a" by (rule pa(1))
    finally show ?thesis using bp by (simp add: x pos_less_divide_eq)
  qed
  have d: "log2_floor x = (if power_int 2 (la - lb) \<le> x then la - lb else la - lb - 1)"
    by (simp add: log2_floor_def q la_def lb_def Let_def)
  show "power_int 2 (log2_floor x) \<le> x" using d lo by (auto simp: less_imp_le)
  show "x < power_int 2 (log2_floor x + 1)" using d up by (auto simp: not_le)
qed

lemma double_round_near:
  assumes "x \<noteq> 0"
  shows "\<bar>double_round x - x\<bar> \<le> power_int 2 (max (log2_floor \<bar>x\<bar>) (- 1022) - 53)"
proof -
  define e where "e = max (log2_floor \<bar>x\<bar>) (- 1022)"
  define q :: rat where "q = power_int 2 (e - 52)"
  have q: "0 < q" by (simp add: q_def)
  have dr: "double_round x = of_int (round_even (x / q)) * q"
    using assms by (simp add: double_round_def Let_def e_def q_def)
  have "(of_int (round_even (x / q)) - x / q) * q = double_round x - x"
    using q by (simp add: dr left_diff_distrib)
  then have "\<bar>double_round x - x\<bar> = \<bar>(of_int (round_even (x / q)) - x / q) * q\<bar>"
    by simp
  also have "\<dots> = \<bar>of_int (round_even (x / q)) - x / q\<bar> * q"
    using q by (simp only: abs_mult abs_of_pos)
  also have "\<dots> \<le> 1 / 2 * q"
    using round_even_near[of "x / q"] q by (intro mult_right_mono) simp_all
  also have "\<dots> = power_int 2 (e - 53)"
    by (simp add: q_def power_int_diff)
  finally show ?thesis by (simp add: e_def)
qed

text \<open>
  For the estimator of the example tables, the constant \<open>1/2\<close> with table size 2, the
  product is exact in \<open>double\<close>: the two indices are the same.
\<close>

lemma dbucket_half: "dbucket (\<lambda>v. 1 / 2) 2 v = bucket (\<lambda>v. 1 / 2) 2 v"
  unfolding dbucket_def bucket_def by code_simp

text \<open>
  C4. On a quiescent store whose level-0 chain leads from the head through the nodes
  \<open>xs\<close> to the tail, for an estimator with values in \<open>[0,1)\<close> and a table of size
  \<open>T \<ge> 2\<close> fresh from \<open>new_shift_table\<close>, with \<open>length xs + T\<close> within the range of \<open>int\<close>:
  when the index the code computes, the product in \<open>double\<close> truncated, is the floor of
  the exact product for the values on the chain, \<open>populate_shift_table\<close> returns the
  table the reference builder computes in the order of the specification: seed bucket 0
  with the head and bucket \<open>T-1\<close> with the tail, walk the chain with the overwrite rule,
  fill the empty buckets backwards. Every count and offset of that table is within the
  range of \<open>int\<close>.
\<close>

theorem populate_refines_reference:
  assumes "chain s 0 h xs (Node t)" and "read_next s (Node t) 0 = Inr (Null, False)"
    and "\<forall>v. 0 \<le> est v \<and> est v < 1" and "2 \<le> T"
    and "\<forall>x \<in> set xs. dbucket est T (nval s x) = \<lfloor>est (nval s x) * of_int (T - 1)\<rfloor>"
    and "int (length xs) + T \<le> INT_MAX"
  shows "populate_shift_table_ix s h (new_shift_table T) (dbucket est T) T =
           Some (Inr (ref_build est (new_shift_table T) (Node h) (Node t) (map (\<lambda>x. (Node x, nval s x)) xs))) \<and>
         (\<forall>e \<in> set (ref_build est (new_shift_table T) (Node h) (Node t) (map (\<lambda>x. (Node x, nval s x)) xs)).
            0 < count e \<and> count e \<le> INT_MAX \<and> INT_MIN \<le> delta e \<and> delta e \<le> INT_MAX)"
proof
  have l: "length (new_shift_table T) = nat T" by (simp add: new_shift_table_def)
  show "populate_shift_table_ix s h (new_shift_table T) (dbucket est T) T =
           Some (Inr (ref_build est (new_shift_table T) (Node h) (Node t) (map (\<lambda>x. (Node x, nval s x)) xs)))"
    by (rule populate_ix_eq_ref[OF assms(1,2,3,4) l assms(5)])
  show "\<forall>e \<in> set (ref_build est (new_shift_table T) (Node h) (Node t) (map (\<lambda>x. (Node x, nval s x)) xs)).
            0 < count e \<and> count e \<le> INT_MAX \<and> INT_MIN \<le> delta e \<and> delta e \<le> INT_MAX"
    by (rule ref_build_rng[OF assms(4,3)]) (use assms(6) in simp)
qed

theorem populate_refines_reference_witness:
  "chain loaded_973 0 1 [4, 3, 2] (Node 0) \<and> map (nval loaded_973) [4, 3, 2] = [3, 7, 9] \<and>
   map (dbucket est_973 5) [3, 7, 9] = [0, 1, 3] \<and>
   populate_shift_table_ix loaded_973 1 (new_shift_table 5) (dbucket est_973 5) 5 =
     Some (Inr (ref_build est_973 (new_shift_table 5) (Node 1) (Node 0) [(Node 4, 3), (Node 3, 7), (Node 2, 9)])) \<and>
   list_all (\<lambda>e. 0 < count e \<and> count e \<le> INT_MAX \<and> INT_MIN \<le> delta e \<and> delta e \<le> INT_MAX)
     (ref_build est_973 (new_shift_table 5) (Node 1) (Node 0) [(Node 4, 3), (Node 3, 7), (Node 2, 9)])"
proof -
  have c: "chain loaded_973 0 1 [4, 3, 2] (Node 0)" by code_simp
  have t: "read_next loaded_973 (Node 0) 0 = Inr (Null, False)" by code_simp
  have n: "map (nval loaded_973) [4, 3, 2] = [3, 7, 9]" by code_simp
  have e: "\<forall>v. 0 \<le> est_973 v \<and> est_973 v < 1" by (simp add: est_973_def double_third_def)
  have d: "map (dbucket est_973 5) [3, 7, 9] = [0, 1, 3]" by code_simp
  have a: "\<forall>x \<in> set [4, 3, 2]. dbucket est_973 5 (nval loaded_973 x) = \<lfloor>est_973 (nval loaded_973 x) * of_int (5 - 1)\<rfloor>"
    by code_simp
  have l: "int (length [4::nat, 3, 2]) + 5 \<le> INT_MAX" by (simp add: INT_MAX_def)
  show ?thesis
    using populate_refines_reference [where T = 5, OF c t e _ a l] c n d
    by (simp add: list_all_iff)
qed

text \<open>
  Without the agreement of the two indices the tables differ. For the estimator that
  returns the \<open>double\<close> nearest to \<open>1/3\<close> and \<open>T = 4\<close>, the product in \<open>double\<close> is \<open>1\<close>,
  a tie rounded to the even significand, where the exact product is below 1: on the set
  holding 5 the code files the node in bucket 1 and the reference in bucket 0.
\<close>

theorem populate_double_product_counterexample:
  "chain loaded_5 0 1 [2] (Node 0) \<and> nval loaded_5 2 = 5 \<and>
   double_round (1 / 3) = double_third \<and> 0 \<le> double_third \<and> double_third < 1 \<and>
   dbucket (\<lambda>v. double_third) 4 5 = 1 \<and> \<lfloor>double_third * of_int (4 - 1)\<rfloor> = 0 \<and>
   populate_shift_table_ix loaded_5 1 (new_shift_table 4) (dbucket (\<lambda>v. double_third) 4) 4 =
     Some (Inr [\<lparr>count = 1, delta = 0, node = Node 1\<rparr>, \<lparr>count = 1, delta = - 1, node = Node 2\<rparr>,
                \<lparr>count = 1, delta = 1, node = Node 0\<rparr>, \<lparr>count = 1, delta = 0, node = Node 0\<rparr>]) \<and>
   ref_build (\<lambda>v. double_third) (new_shift_table 4) (Node 1) (Node 0) [(Node 2, 5)] =
     [\<lparr>count = 2, delta = 0, node = Node 2\<rparr>, \<lparr>count = 1, delta = 2, node = Node 0\<rparr>,
      \<lparr>count = 1, delta = 1, node = Node 0\<rparr>, \<lparr>count = 1, delta = 0, node = Node 0\<rparr>] \<and>
   populate_shift_table_ix loaded_5 1 (new_shift_table 4) (dbucket (\<lambda>v. double_third) 4) 4 \<noteq>
     Some (Inr (ref_build (\<lambda>v. double_third) (new_shift_table 4) (Node 1) (Node 0) [(Node 2, 5)]))"
  by code_simp

text \<open>
  C5. After \<open>new_shift_table\<close> and \<open>populate_shift_table\<close> on a quiescent store (table size
  \<open>T \<ge> 2\<close>, estimator with values in \<open>[0,1)\<close>, a chain of fewer than \<open>2^31\<close> nodes, the
  range of the C \<open>int\<close> rank), the call returns a table of \<open>T\<close> entries, and each entry
  refers to the head, the tail or a node of the level-0 chain; none is null.
\<close>

theorem populate_no_null:
  assumes "chain s 0 h xs (Node t)" and "read_next s (Node t) 0 = Inr (Null, False)"
    and "\<forall>v. 0 \<le> est v \<and> est v < 1" and "2 \<le> T" and "int (length xs) \<le> INT_MAX"
  shows "\<exists>tbl. populate_shift_table s h (new_shift_table T) est T = Some (Inr tbl) \<and>
           length tbl = nat T \<and>
           (\<forall>e \<in> set tbl. node e \<noteq> Null \<and> node e \<in> Node ` ({h, t} \<union> set xs))"
proof -
  let ?ns = "map (\<lambda>x. (Node x, nval s x)) xs"
  let ?r = "ref_build est (new_shift_table T) (Node h) (Node t) ?ns"
  have "populate_shift_table s h (new_shift_table T) est T = Some (Inr ?r)"
    by (rule populate_eq_ref[OF assms(1,2,3,4)]) (simp add: new_shift_table_def)
  moreover have "length ?r = nat T"
    by (simp add: ref_build_def ref_seed_def new_shift_table_def)
  moreover have "\<forall>e \<in> set ?r. node e \<in> Node ` ({h, t} \<union> set xs)"
    by (rule ref_build_nodes[OF assms(4,3)]) (use assms(5) in auto)
  ultimately show ?thesis by auto
qed

theorem populate_no_null_witness:
  "\<exists>tbl. populate_shift_table (world_after (seq_add (new_set 4) 1 5)) 1 (new_shift_table 3) (\<lambda>v. 1 / 2) 3
            = Some (Inr tbl) \<and>
     length tbl = nat 3 \<and> (\<forall>e \<in> set tbl. node e \<noteq> Null \<and> node e \<in> Node ` ({1, 0} \<union> set [2]))"
proof -
  let ?s = "world_after (seq_add (new_set 4) 1 5)"
  have c: "chain ?s 0 1 [2] (Node 0)" by code_simp
  have t: "read_next ?s (Node 0) 0 = Inr (Null, False)" by code_simp
  have e: "\<forall>v::int. (0::rat) \<le> 1 / 2 \<and> (1::rat) / 2 < 1" by simp
  have l: "int (length [2::nat]) \<le> INT_MAX" by (simp add: INT_MAX_def)
  show ?thesis
    using populate_no_null [where T = 3, OF c t e _ l] by simp
qed

text \<open>
  C8. In \<open>populate_shift_table\<close> of the skip-list variant the backward fill runs on the
  table in which bucket \<open>table_size - 1\<close> has just been given the tail with \<open>count = 1\<close>.
  On every such table the fill ends without an out-of-bounds access: the branch that
  reads entry \<open>j + 1\<close> is not taken at \<open>j = table_size - 1\<close>, so no access leaves
  \<open>[0, table_size - 1]\<close>.
\<close>

theorem backfill_in_bounds:
  assumes "tab_set tbl2 (table_size - 1) \<lparr>count = 1, delta = 0, node = p\<rparr> = Inr tbl3"
    and "length tbl2 = nat table_size"
  shows "\<exists>tbl'. backfill tbl3 (nat table_size) = Inr tbl' \<and> length tbl' = length tbl3"
proof -
  from assms(1) have rng: "0 \<le> table_size - 1" "table_size - 1 < int (length tbl2)"
    and t3: "tbl3 = tbl2[nat (table_size - 1) := \<lparr>count = 1, delta = 0, node = p\<rparr>]"
    by (auto simp: tab_set_def split: if_splits)
  have len: "length tbl3 = nat table_size" using t3 assms(2) by simp
  have pos: "0 < nat table_size" using rng by simp
  have "nat table_size - 1 = nat (table_size - 1)" using rng by simp
  then have "count (tbl3 ! (nat table_size - 1)) = 1"
    using t3 rng assms(2) by simp
  then have "backfill tbl3 (nat table_size) = Inr (ref_fill tbl3 (nat table_size))"
    using len pos by (intro backfill_total) auto
  moreover have "length (ref_fill t n) = length t" for t n
    by (induction n arbitrary: t) auto
  ultimately show ?thesis by simp
qed

theorem backfill_in_bounds_witness:
  "\<exists>tbl'. backfill ((new_shift_table 3)[2 := \<lparr>count = 1, delta = 0, node = Node 0\<rparr>]) 3 = Inr tbl'
     \<and> length tbl' = 3"
  using backfill_in_bounds [of "new_shift_table 3" 3 "Node 0"
      "(new_shift_table 3)[2 := \<lparr>count = 1, delta = 0, node = Node 0\<rparr>]"]
  by (simp add: tab_set_def new_shift_table_def)

section \<open>Node construction and the simple list\<close>

lemma fold_update_upt:
  "n \<le> length xs \<Longrightarrow> fold (\<lambda>i ys. ys[i := y]) [0..<n] xs = replicate n y @ drop n xs"
proof (induction n)
  case 0
  then show ?case by simp
next
  case (Suc n)
  then have n: "n < length xs" by simp
  have "fold (\<lambda>i ys. ys[i := y]) [0..<Suc n] xs = (replicate n y @ drop n xs)[n := y]"
    using Suc by simp
  also have "\<dots> = replicate n y @ (drop n xs)[0 := y]"
    by (simp add: list_update_append)
  also have "drop n xs = xs ! n # drop (Suc n) xs"
    using n by (simp add: Cons_nth_drop_Suc)
  finally show ?case by (simp add: replicate_append_same)
qed

lemma store_all_in_bounds:
  "heap s a = Some n \<Longrightarrow> \<forall>i \<in> set is. i < length (nexts n) \<Longrightarrow>
   store_all s (Node a) r is =
     Inr (s\<lparr>heap := (heap s)(a \<mapsto> n\<lparr>nexts := fold (\<lambda>i ys. ys[i := Some r]) is (nexts n)\<rparr>)\<rparr>)"
proof (induction "is" arbitrary: s n)
  case Nil
  then show ?case by (simp add: fun_upd_idem)
next
  case (Cons i "is")
  let ?n' = "n\<lparr>nexts := (nexts n)[i := Some r]\<rparr>"
  let ?s' = "s\<lparr>heap := (heap s)(a \<mapsto> ?n')\<rparr>"
  have w: "write_next s (Node a) i r = Inr ?s'"
    using Cons.prems by (simp add: write_next_def)
  have "store_all ?s' (Node a) r is =
     Inr (?s'\<lparr>heap := (heap ?s')(a \<mapsto> ?n'\<lparr>nexts := fold (\<lambda>i ys. ys[i := Some r]) is (nexts ?n')\<rparr>)\<rparr>)"
    by (rule Cons.IH) (use Cons.prems in auto)
  moreover have "?s'\<lparr>heap := (heap ?s')(a \<mapsto> ?n'\<lparr>nexts := fold (\<lambda>i ys. ys[i := Some r]) is (nexts ?n')\<rparr>)\<rparr>
      = s\<lparr>heap := (heap s)(a \<mapsto> n\<lparr>nexts := fold (\<lambda>i ys. ys[i := Some r]) (i # is) (nexts n)\<rparr>)\<rparr>"
    by simp
  ultimately show ?case using w by (simp del: fun_upd_apply)
qed

lemma store_all_out_of_bounds:
  "heap s a = Some n \<Longrightarrow> \<exists>i \<in> set is. \<not> i < length (nexts n) \<Longrightarrow>
   store_all s (Node a) r is = Inl OutOfBounds"
proof (induction "is" arbitrary: s n)
  case Nil
  then show ?case by simp
next
  case (Cons i "is")
  show ?case
  proof (cases "i < length (nexts n)")
    case True
    let ?n' = "n\<lparr>nexts := (nexts n)[i := Some r]\<rparr>"
    let ?s' = "s\<lparr>heap := (heap s)(a \<mapsto> ?n')\<rparr>"
    have w: "write_next s (Node a) i r = Inr ?s'"
      using Cons.prems True by (simp add: write_next_def)
    have "store_all ?s' (Node a) r is = Inl OutOfBounds"
      by (rule Cons.IH[of _ ?n']) (use Cons.prems True in auto)
    then show ?thesis using w by simp
  next
    case False
    then show ?thesis using Cons.prems by (simp add: write_next_def)
  qed
qed

lemma sl_new_node_fits:
  "sl_new_node s v nxt (levelmax s) =
     Inr (brk s, s\<lparr>heap := (heap s)(brk s \<mapsto> \<lparr>val = v, toplevel = levelmax s, deleted = 0,
                       nexts = replicate (levelmax s) (Some (nxt, False))\<rparr>),
                   brk := Suc (brk s)\<rparr>)"
  unfolding sl_new_node_def sl_new_simple_node_def
  by (simp add: store_all_in_bounds[where n = "\<lparr>val = v, toplevel = levelmax s, deleted = 0, nexts = replicate (levelmax s) None\<rparr>"]
        fold_update_upt)

lemma sl_new_node_short:
  assumes "t < levelmax s"
  shows "sl_new_node s v nxt t = Inl OutOfBounds"
proof -
  let ?n = "\<lparr>val = v, toplevel = t, deleted = 0, nexts = replicate t None\<rparr>"
  let ?s1 = "s\<lparr>heap := (heap s)(brk s \<mapsto> ?n), brk := Suc (brk s)\<rparr>"
  have "\<exists>i \<in> set [0..<levelmax ?s1]. \<not> i < length (nexts ?n)"
    using assms by (intro bexI[of _ t]) auto
  then have "store_all ?s1 (Node (brk s)) (nxt, False) [0..<levelmax ?s1] = Inl OutOfBounds"
    by (intro store_all_out_of_bounds[where n = ?n]) auto
  then show ?thesis
    unfolding sl_new_node_def sl_new_simple_node_def by simp
qed

lemma sl_set_new_eq:
  "sl_set_new s =
    Inr (Suc (brk s),
      s\<lparr>heap := (heap s)
          (brk s \<mapsto> \<lparr>val = VAL_MAX, toplevel = levelmax s, deleted = 0,
                       nexts = replicate (levelmax s) (Some (Null, False))\<rparr>,
           Suc (brk s) \<mapsto> \<lparr>val = VAL_MIN, toplevel = levelmax s, deleted = 0,
                       nexts = replicate (levelmax s) (Some (Node (brk s), False))\<rparr>),
        brk := Suc (Suc (brk s))\<rparr>)"
  unfolding sl_set_new_def
  by (simp add: sl_new_node_fits)

text \<open>
  C10. \<open>sl_new_simple_node\<close> allocates \<open>toplevel\<close> forward slots, and \<open>sl_new_node\<close> then
  writes the slots \<open>0 .. levelmax - 1\<close> whatever \<open>toplevel\<close> is. For a height within the
  bound of the data model (\<open>toplevel \<le> levelmax\<close>) all writes are in bounds exactly when
  \<open>toplevel = levelmax\<close>: then every one of the \<open>levelmax\<close> slots holds \<open>next\<close>, otherwise a
  write falls outside the node. The two calls in \<open>sl_set_new\<close> pass \<open>levelmax\<close> and succeed.
\<close>

theorem sl_new_node_bounds:
  assumes "t \<le> levelmax s"
  shows "length (nexts (the (heap (snd (sl_new_simple_node s v t)) (fst (sl_new_simple_node s v t))))) = t
       \<and> (t = levelmax s \<longrightarrow>
            sl_new_node s v nxt t =
              Inr (brk s, s\<lparr>heap := (heap s)(brk s \<mapsto> \<lparr>val = v, toplevel = t, deleted = 0,
                               nexts = replicate (levelmax s) (Some (nxt, False))\<rparr>),
                            brk := Suc (brk s)\<rparr>))
       \<and> (t \<noteq> levelmax s \<longrightarrow> sl_new_node s v nxt t = Inl OutOfBounds)
       \<and> (\<exists>h s'. sl_set_new s = Inr (h, s'))"
  using assms sl_new_node_fits[of s v nxt] sl_new_node_short[of t s v nxt] sl_set_new_eq[of s]
  by (auto simp: sl_new_simple_node_def)

theorem sl_new_node_bounds_witness:
  "(3::nat) \<le> levelmax (init_world 3) \<and>
   sl_new_node (init_world 3) 7 Null 3 =
     Inr (0, (init_world 3)\<lparr>heap := (heap (init_world 3))(0 \<mapsto> \<lparr>val = 7, toplevel = 3, deleted = 0,
                 nexts = replicate 3 (Some (Null, False))\<rparr>), brk := 1\<rparr>) \<and>
   sl_new_node (init_world 3) 7 Null 2 = Inl OutOfBounds"
  using sl_new_node_bounds [of 3 "init_world 3" 7 Null] sl_new_node_bounds [of 2 "init_world 3" 7 Null]
  by (simp add: init_world_def)

text \<open>
  C9. \<open>sl_add\<close> of the simple list does not depend on the shift table: for any two
  tables, estimators and table sizes on which the shortcut loop runs through (it reads
  the table and the nodes it names, and faults on a null or dangling entry), the two
  calls on the same list and value give the same result and the same resulting list,
  since the scan starts again from the head.
\<close>

theorem list_sl_add_ignores_table:
  assumes "list_shortcut_start s est1 tbl1 T1 v = Inr p1"
    and "list_shortcut_start s est2 tbl2 T2 v = Inr p2"
  shows "list_sl_add s sh est1 tbl1 T1 v = list_sl_add s sh est2 tbl2 T2 v"
  by (simp add: list_sl_add_def assms)

theorem list_sl_add_ignores_table_witness:
  "list_sl_add (snd (list_sl_set_new \<lparr>lheap = (\<lambda>a. None), lbrk = 0\<rparr>)) 1 (\<lambda>v. 0)
       [\<lparr>count = 1, delta = 0, node = Node 1\<rparr>] 1 5 =
   list_sl_add (snd (list_sl_set_new \<lparr>lheap = (\<lambda>a. None), lbrk = 0\<rparr>)) 1 (\<lambda>v. 1 / 2)
       [\<lparr>count = 1, delta = 0, node = Node 0\<rparr>, \<lparr>count = 1, delta = 0, node = Node 0\<rparr>] 2 5"
proof -
  let ?s = "snd (list_sl_set_new \<lparr>lheap = (\<lambda>a. None), lbrk = 0\<rparr>)"
  have a: "list_shortcut_start ?s (\<lambda>v. 0) [\<lparr>count = 1, delta = 0, node = Node 1\<rparr>] 1 5 = Inr (Node 1)"
    by code_simp
  have b: "list_shortcut_start ?s (\<lambda>v. 1 / 2)
       [\<lparr>count = 1, delta = 0, node = Node 0\<rparr>, \<lparr>count = 1, delta = 0, node = Node 0\<rparr>] 2 5 = Inr (Node 0)"
    by code_simp
  show ?thesis
    using list_sl_add_ignores_table [OF a b] by simp
qed

section \<open>The shortcut start on a table built after loading\<close>

text \<open>
  C3. The claim does not hold of the code. On the set holding the single value 5 the
  builder (table size 2) leaves the node 5 in bucket 0: the walk overwrites the head
  seeded there, as the offset \<open>0 - 0\<close> of the first node is not greater than the \<open>0\<close> of
  the seed. For the target 3 the shortcut loop then stops at the node 5, which lies
  after the position of 3, and the search from there returns the pair (node 5, tail)
  in place of (head, node 5).
\<close>

theorem shortcut_start_overshoots:
  "populate_shift_table loaded_5 1 (new_shift_table 2) (\<lambda>v. 1 / 2) 2 =
     Some (Inr [\<lparr>count = 2, delta = 0, node = Node 2\<rparr>, \<lparr>count = 1, delta = 0, node = Node 0\<rparr>]) \<and>
   chain loaded_5 0 1 [2] (Node 0) \<and> nval loaded_5 2 = 5 \<and>
   shortcut_start loaded_5 (\<lambda>v. 1 / 2)
     [\<lparr>count = 2, delta = 0, node = Node 2\<rparr>, \<lparr>count = 1, delta = 0, node = Node 0\<rparr>] 2 3 = Inr (Node 2) \<and>
   lists_of (fraser_search loaded_5 3 (Some (replicate 4 None)) (Some (replicate 4 None)) (\<lambda>v. 1 / 2)
     [\<lparr>count = 2, delta = 0, node = Node 2\<rparr>, \<lparr>count = 1, delta = 0, node = Node 0\<rparr>] 2) =
     Some (Some [Some (Node 2), Some (Node 2), None, None], Some [Some (Node 0), Some (Node 0), None, None])"
  by code_simp

text \<open>
  C2. The claim does not hold of the code, through the same defect as C3. With the
  table built on the set holding 5, \<open>sl_add\<close> of 3 starts its search at the node 5 and
  links the new node behind it: the level-0 chain from the head then reads 5, 3, which
  is not increasing. \<open>sl_add\<close> of 5 on the same state does not find the node 5 and links
  a second node with the value 5.
\<close>

theorem sl_add_breaks_order:
  "result_of (sl_add loaded_5 (\<lambda>v. 1 / 2)
     [\<lparr>count = 2, delta = 0, node = Node 2\<rparr>, \<lparr>count = 1, delta = 0, node = Node 0\<rparr>] 2 3) = Some 1 \<and>
   chain (world_after (sl_add loaded_5 (\<lambda>v. 1 / 2)
     [\<lparr>count = 2, delta = 0, node = Node 2\<rparr>, \<lparr>count = 1, delta = 0, node = Node 0\<rparr>] 2 3)) 0 1 [2, 3] (Node 0) \<and>
   map (nval (world_after (sl_add loaded_5 (\<lambda>v. 1 / 2)
     [\<lparr>count = 2, delta = 0, node = Node 2\<rparr>, \<lparr>count = 1, delta = 0, node = Node 0\<rparr>] 2 3))) [2, 3] = [5, 3] \<and>
   result_of (sl_add loaded_5 (\<lambda>v. 1 / 2)
     [\<lparr>count = 2, delta = 0, node = Node 2\<rparr>, \<lparr>count = 1, delta = 0, node = Node 0\<rparr>] 2 5) = Some 1 \<and>
   chain (world_after (sl_add loaded_5 (\<lambda>v. 1 / 2)
     [\<lparr>count = 2, delta = 0, node = Node 2\<rparr>, \<lparr>count = 1, delta = 0, node = Node 0\<rparr>] 2 5)) 0 1 [2, 3] (Node 0) \<and>
   map (nval (world_after (sl_add loaded_5 (\<lambda>v. 1 / 2)
     [\<lparr>count = 2, delta = 0, node = Node 2\<rparr>, \<lparr>count = 1, delta = 0, node = Node 0\<rparr>] 2 5))) [2, 3] = [5, 5]"
  by code_simp

section \<open>Facts about the store\<close>

lemma allocD:
  "alloc s a \<Longrightarrow> \<exists>n. heap s a = Some n \<and> val n = nval s a \<and> toplevel n = ntop s a \<and>
      deleted n = ndel s a \<and> length (nexts n) = nslots s a"
  by (auto simp: alloc_def nval_def ntop_def ndel_def nslots_def)

lemma deref_alloc:
  "alloc s a \<Longrightarrow> \<exists>n. deref s (Node a) = Inr n \<and> val n = nval s a \<and> toplevel n = ntop s a \<and>
      deleted n = ndel s a"
  by (auto simp: alloc_def nval_def ntop_def ndel_def deref_def)

lemma read_next_alloc:
  "read_next s (Node a) i = Inr r \<Longrightarrow> alloc s a \<and> i < nslots s a"
  by (auto simp: read_next_def deref_def alloc_def nslots_def split: option.splits if_splits)

lemma write_next_effect:
  assumes "write_next s (Node a) i r = Inr s'"
  shows "same_nodes s s'" and "seed s' = seed s"
    and "read_next s' p j = (if p = Node a \<and> j = i then Inr r else read_next s p j)"
proof -
  from assms obtain n where n: "heap s a = Some n" "i < length (nexts n)"
    and s': "s' = s\<lparr>heap := (heap s)(a \<mapsto> n\<lparr>nexts := (nexts n)[i := Some r]\<rparr>)\<rparr>"
    by (auto simp: write_next_def split: option.splits if_splits)
  show "same_nodes s s'"
    using n by (auto simp: s' same_nodes_def alloc_def nval_def ntop_def ndel_def nslots_def)
  show "seed s' = seed s" by (simp add: s')
  show "read_next s' p j = (if p = Node a \<and> j = i then Inr r else read_next s p j)"
    using n by (cases p) (auto simp: s' read_next_def deref_def nth_list_update)
qed

lemma write_next_ok:
  "alloc s a \<Longrightarrow> i < nslots s a \<Longrightarrow> \<exists>s'. write_next s (Node a) i r = Inr s'"
  by (auto simp: write_next_def alloc_def nslots_def)

lemma cas_next_hit:
  assumes "read_next s (Node a) i = Inr e"
  shows "\<exists>s'. cas_next s (Node a) i e r = Inr (True, s') \<and> same_nodes s s' \<and> seed s' = seed s \<and>
           (\<forall>p j. read_next s' p j = (if p = Node a \<and> j = i then Inr r else read_next s p j))"
proof -
  from read_next_alloc[OF assms] write_next_ok obtain s' where w: "write_next s (Node a) i r = Inr s'"
    by blast
  then have "cas_next s (Node a) i e r = Inr (True, s')"
    using assms by (simp add: cas_next_def)
  with write_next_effect[OF w] show ?thesis by blast
qed

lemma same_nodes_refl [simp]: "same_nodes s s"
  by (simp add: same_nodes_def)

lemma same_nodes_trans: "same_nodes s s' \<Longrightarrow> same_nodes s' s'' \<Longrightarrow> same_nodes s s''"
  by (simp add: same_nodes_def)

lemma same_nodes_obs:
  assumes "same_nodes s s'"
  shows "nval s' = nval s" "ntop s' = ntop s" "ndel s' = ndel s" "nslots s' = nslots s"
    "alloc s' = alloc s" "brk s' = brk s" "levelmax s' = levelmax s"
    "lev s' = lev s" "below s' = below s" "above s' = above s"
    "pred_at s' = pred_at s" "succ_at s' = succ_at s"
proof -
  show a: "nval s' = nval s" "ntop s' = ntop s" "ndel s' = ndel s" "nslots s' = nslots s"
    "alloc s' = alloc s" "brk s' = brk s" "levelmax s' = levelmax s"
    using assms by (auto simp: same_nodes_def fun_eq_iff)
  show b: "lev s' = lev s" "below s' = below s" "above s' = above s"
    by (simp_all add: fun_eq_iff lev_def below_def above_def a)
  show "pred_at s' = pred_at s" "succ_at s' = succ_at s"
    by (simp_all add: fun_eq_iff pred_at_def succ_at_def b)
qed

lemma skel_same_nodes: "same_nodes s s' \<Longrightarrow> skel s h t ns \<Longrightarrow> skel s' h t ns"
  by (simp add: skel_def same_nodes_obs)

section \<open>Facts about chains\<close>

lemma mchain_empty: "mchain s i {} a xs b = chain s i a xs b"
  by (induction xs arbitrary: a) auto

lemma mchain_clean:
  "a \<notin> M \<Longrightarrow> set xs \<inter> M = {} \<Longrightarrow> mchain s i M a xs b = chain s i a xs b"
  by (induction xs arbitrary: a) auto

lemma chain_cong:
  "chain s i a xs b \<Longrightarrow> \<forall>x \<in> set (a # xs). read_next s' (Node x) i = read_next s (Node x) i \<Longrightarrow>
   chain s' i a xs b"
  by (induction xs arbitrary: a) auto

lemma mchain_cong:
  "mchain s i M a xs b \<Longrightarrow> \<forall>x \<in> set (a # xs). read_next s' (Node x) i = read_next s (Node x) i \<Longrightarrow>
   mchain s' i M a xs b"
  by (induction xs arbitrary: a) auto

lemma chain_append:
  "chain s i a (xs @ y # ys) b \<longleftrightarrow> chain s i a xs (Node y) \<and> chain s i y ys b"
  by (induction xs arbitrary: a) auto

lemma mchain_append:
  "mchain s i M a (xs @ y # ys) b \<longleftrightarrow> mchain s i M a xs (Node y) \<and> mchain s i M y ys b"
  by (induction xs arbitrary: a) auto

lemma chain_last: "chain s i a xs b \<Longrightarrow> read_next s (Node (last (a # xs))) i = Inr (b, False)"
  by (induction xs arbitrary: a) auto

lemma chain_hd:
  "chain s i a xs (Node b) \<Longrightarrow> read_next s (Node a) i = Inr (Node (hd (xs @ [b])), False)"
  by (cases xs) auto

lemma chain_relink:
  assumes "chain s i a xs b" and "distinct (a # xs)"
    and "read_next s' (Node (last (a # xs))) i = Inr (b', False)"
    and "\<forall>x \<in> set (a # xs). x \<noteq> last (a # xs) \<longrightarrow> read_next s' (Node x) i = read_next s (Node x) i"
  shows "chain s' i a xs b'"
  using assms
proof (induction xs arbitrary: a)
  case Nil
  then show ?case by simp
next
  case (Cons x xs)
  have ne: "a \<noteq> last (x # xs)" using Cons.prems(2) by auto
  have "chain s' i x xs b'"
    by (rule Cons.IH) (use Cons.prems in auto)
  moreover have "read_next s' (Node a) i = read_next s (Node a) i"
    using Cons.prems(4) ne by simp
  ultimately show ?case using Cons.prems(1) by simp
qed

lemma chain_nodes_read:
  "chain s i a xs b \<Longrightarrow> x \<in> set (a # xs) \<Longrightarrow> \<exists>q. read_next s (Node x) i = Inr (q, False)"
  by (induction xs arbitrary: a) auto

section \<open>The halves of a level around a value\<close>

lemma sorted_partition:
  "sorted_wrt (<) (map f xs) \<Longrightarrow>
   xs = filter (\<lambda>a. f a < (v::int)) xs @ filter (\<lambda>a. \<not> f a < v) xs"
proof (induction xs)
  case Nil
  then show ?case by simp
next
  case (Cons x xs)
  show ?case
  proof (cases "f x < v")
    case True
    then show ?thesis using Cons by simp
  next
    case False
    have "\<forall>y \<in> set xs. \<not> f y < v" using Cons.prems False by auto
    then have "filter (\<lambda>a. f a < v) xs = []" "filter (\<lambda>a. \<not> f a < v) xs = xs"
      by (auto simp: filter_empty_conv filter_id_conv)
    then show ?thesis using False by simp
  qed
qed

lemma sorted_first_ge:
  "sorted_wrt (<) (map f xs) \<Longrightarrow> d \<in> set xs \<Longrightarrow> f d = (v::int) \<Longrightarrow>
   filter (\<lambda>a. \<not> f a < v) xs = d # filter (\<lambda>a. v < f a) xs"
proof (induction xs)
  case Nil
  then show ?case by simp
next
  case (Cons x xs)
  show ?case
  proof (cases "x = d")
    case True
    have "\<forall>y \<in> set xs. v < f y" using Cons.prems True by auto
    then have "filter (\<lambda>a. \<not> f a < v) xs = filter (\<lambda>a. v < f a) xs"
      by (intro filter_cong) auto
    then show ?thesis using True Cons.prems by simp
  next
    case False
    then have d: "d \<in> set xs" using Cons.prems by simp
    then have "f x < v" using Cons.prems by auto
    then show ?thesis using Cons.IH d Cons.prems by simp
  qed
qed

lemma sorted_inj:
  "sorted_wrt (<) (map f xs) \<Longrightarrow> a \<in> set xs \<Longrightarrow> b \<in> set xs \<Longrightarrow> f a = (f b :: int) \<Longrightarrow> a = b"
  by (induction xs) auto

lemma lev_split:
  assumes "skel s h t ns"
  shows "lev s i ns = below s v i ns @ above s v i ns"
proof -
  have "sorted_wrt (<) (map (nval s) ns)" using assms by (simp add: skel_def)
  from sorted_partition[OF this, of v]
  have "filter (\<lambda>a. i < ntop s a) ns =
        filter (\<lambda>a. i < ntop s a) (filter (\<lambda>a. nval s a < v) ns @ filter (\<lambda>a. \<not> nval s a < v) ns)"
    by simp
  then show ?thesis
    by (simp add: lev_def below_def above_def conj_commute)
qed

lemma lev_filter: "lev s i (filter P ns) = filter P (lev s i ns)"
  by (auto simp: lev_def conj_commute)

lemma below_filter:
  "nval s d = v \<Longrightarrow> below s v i (filter (\<lambda>a. a \<notin> {d}) ns) = below s v i ns"
  unfolding below_def filter_filter by (rule filter_cong) auto

lemma above_filter_eq:
  assumes "skel s h t ns" "d \<in> set ns" "nval s d = v"
  shows "above s v i (filter (\<lambda>a. a \<notin> {d}) ns) = filter (\<lambda>a. i < ntop s a \<and> v < nval s a) ns"
proof -
  have srt: "sorted_wrt (<) (map (nval s) ns)" using assms by (simp add: skel_def)
  have "\<And>a. a \<in> set ns \<Longrightarrow> (a \<noteq> d \<and> \<not> nval s a < v) = (v < nval s a)"
    using sorted_inj[OF srt _ assms(2)] assms(3) by force
  then show ?thesis
    unfolding above_def filter_filter by (intro filter_cong) auto
qed

lemma above_marked:
  assumes "skel s h t ns" "d \<in> set ns" "nval s d = v"
  shows "above s v i ns =
       (if i < ntop s d then [d] else []) @ above s v i (filter (\<lambda>a. a \<notin> {d}) ns)"
proof -
  have srt: "sorted_wrt (<) (map (nval s) ns)" using assms by (simp add: skel_def)
  have "above s v i ns = filter (\<lambda>a. i < ntop s a) (filter (\<lambda>a. \<not> nval s a < v) ns)"
    by (simp add: above_def conj_commute)
  also have "\<dots> = filter (\<lambda>a. i < ntop s a) (d # filter (\<lambda>a. v < nval s a) ns)"
    using sorted_first_ge[OF srt assms(2,3)] by simp
  also have "\<dots> = (if i < ntop s d then [d] else []) @ filter (\<lambda>a. i < ntop s a \<and> v < nval s a) ns"
    by (simp add: conj_commute)
  finally show ?thesis using above_filter_eq[OF assms] by simp
qed

lemma below_props:
  "a \<in> set (below s v i ns) \<longleftrightarrow> a \<in> set ns \<and> i < ntop s a \<and> nval s a < v"
  by (auto simp: below_def)

lemma above_props:
  "a \<in> set (above s v i ns) \<longleftrightarrow> a \<in> set ns \<and> i < ntop s a \<and> \<not> nval s a < v"
  by (auto simp: above_def)

lemma distinct_level:
  assumes "skel s h t ns"
  shows "distinct (h # below s v i ns @ above s v i ns @ [t])"
proof -
  have "distinct (lev s i ns)" "h \<notin> set (lev s i ns)" "t \<notin> set (lev s i ns)" "h \<noteq> t"
    using assms by (auto simp: skel_def lev_def)
  then show ?thesis using lev_split[OF assms, of i v] by auto
qed

lemma pred_at_cases:
  "pred_at s h v ns i = Node p \<Longrightarrow>
   p = h \<or> (p \<in> set ns \<and> nval s p < v \<and> i < ntop s p)"
proof -
  assume "pred_at s h v ns i = Node p"
  then have p: "p = last (h # below s v i ns)" by (simp add: pred_at_def)
  show ?thesis
  proof (cases "below s v i ns = []")
    case True
    then show ?thesis using p by simp
  next
    case False
    then have "p \<in> set (below s v i ns)" using p by simp
    then show ?thesis by (simp add: below_props)
  qed
qed

section \<open>Walking one level\<close>

lemma skip_marked_clean:
  "read_next s (Node x) i = Inr (q, False) \<Longrightarrow> skip_marked s i (Node x) = Some (Inr (Node x, q))"
  by (subst skip_marked.simps) (simp add: is_marked_def)

lemma skip_marked_one:
  "read_next s (Node d) i = Inr (Node r, True) \<Longrightarrow> read_next s (Node r) i = Inr (q, False) \<Longrightarrow>
   skip_marked s i (Node d) = Some (Inr (Node r, q))"
  by (subst skip_marked.simps) (simp add: is_marked_def unset_mark_def skip_marked_clean)

lemma find_pair_walk:
  assumes "chain s i left ys (Node x)" and "\<forall>y \<in> set ys. nval s y < v"
    and "skip_marked s i (Node x) = Some (Inr (Node r, q))" and "alloc s r" and "v \<le> nval s r"
  shows "find_pair s v i (Node left) (Node (hd (ys @ [x]))) (Node (hd (ys @ [x]))) =
         Some (Inr (Node (last (left # ys)), Node x, Node r))"
  using assms(1,2)
proof (induction ys arbitrary: left)
  case Nil
  from deref_alloc[OF assms(4)] obtain n where "deref s (Node r) = Inr n" "val n = nval s r" by blast
  then show ?case
    using assms(3,5) by (subst find_pair.simps) simp
next
  case (Cons y ys)
  from Cons.prems have ch: "chain s i y ys (Node x)" by simp
  have rn: "read_next s (Node y) i = Inr (Node (hd (ys @ [x])), False)"
    by (rule chain_hd[OF ch])
  from read_next_alloc[OF rn] deref_alloc obtain n where n: "deref s (Node y) = Inr n" "val n = nval s y"
    by blast
  have lt: "nval s y < v" using Cons.prems by simp
  have "find_pair s v i (Node left) (Node y) (Node y) =
        find_pair s v i (Node y) (Node (hd (ys @ [x]))) (Node (hd (ys @ [x])))"
    by (subst find_pair.simps) (use n lt skip_marked_clean[OF rn] in simp)
  also have "\<dots> = Some (Inr (Node (last (y # ys)), Node x, Node r))"
    by (rule Cons.IH[OF ch]) (use Cons.prems in simp)
  finally show ?case by simp
qed

lemma chain_from_member:
  assumes "chain s i h A (Node x)" and "left \<in> set (h # A)"
  shows "\<exists>ys. chain s i left ys (Node x) \<and> set ys \<subseteq> set A \<and> last (left # ys) = last (h # A)"
proof (cases "left \<in> set A")
  case True
  then obtain A1 A2 where A: "A = A1 @ left # A2" by (auto dest: split_list)
  then have "chain s i left A2 (Node x)" using assms(1) by (simp add: chain_append)
  then show ?thesis using A by (intro exI[of _ A2]) auto
next
  case False
  then have "left = h" using assms(2) by simp
  then show ?thesis using assms(1) by (intro exI[of _ A]) auto
qed

section \<open>The search from the head\<close>

lemma arr_set_ok:
  "arr_ok L arr \<Longrightarrow> i < L \<Longrightarrow> arr_set arr i p = Inr (arr_upd arr i p)"
  by (auto simp: arr_ok_def arr_set_def arr_upd_def split: option.splits)

lemma arr_ok_upd [simp]: "arr_ok L (arr_upd arr i p) = arr_ok L arr"
  by (auto simp: arr_ok_def arr_upd_def split: option.splits)

lemma arr_ok_fill [simp]: "arr_ok L (arr_fill n f arr) = arr_ok L arr"
  by (auto simp: arr_ok_def arr_fill_def split: option.splits)

lemma arr_fill_0 [simp]: "arr_fill 0 f arr = arr"
  by (cases arr) (auto simp: arr_fill_def intro: nth_equalityI)

lemma arr_fill_upd:
  "arr_ok L arr \<Longrightarrow> i < L \<Longrightarrow> arr_fill i f (arr_upd arr i (f i)) = arr_fill (Suc i) f arr"
  by (cases arr) (auto simp: arr_fill_def arr_upd_def arr_ok_def less_Suc_eq)

lemma arr_get_fill:
  "arr_ok L arr \<Longrightarrow> arr \<noteq> None \<Longrightarrow> i < n \<Longrightarrow> i < L \<Longrightarrow> arr_get (arr_fill n f arr) i = Inr (f i)"
  by (cases arr) (auto simp: arr_fill_def arr_get_def arr_ok_def)

lemma level_step:
  assumes sk: "skel s h t ns" and v: "v \<le> VAL_MAX"
    and M: "M = {} \<or> (M = {d} \<and> d \<in> set ns \<and> nval s d = v)"
    and pl: "part_links s h t ns M (Suc i)" and i: "i < levelmax s"
    and left: "left = h \<or> (left \<in> set ns \<and> nval s left < v \<and> i < ntop s left)"
    and arrs: "arr_ok (levelmax s) pa" "arr_ok (levelmax s) sa"
  shows "\<exists>s'. search_levels v (Suc i) s (Node left) pa sa =
               search_levels v i s' (pred_at s h v ns i)
                 (arr_upd pa i (pred_at s h v ns i))
                 (arr_upd sa i (succ_at s t v (filter (\<lambda>a. a \<notin> M) ns) i)) \<and>
             same_nodes s s' \<and> seed s' = seed s \<and> part_links s' h t ns M i \<and> (M = {} \<longrightarrow> s' = s) \<and>
             (\<forall>j. read_next s' (Node d) j = read_next s (Node d) j)"
proof -
  define A where "A = below s v i ns"
  define ns' where "ns' = filter (\<lambda>a. a \<notin> M) ns"
  define B' where "B' = above s v i ns'"
  define p where "p = last (h # A)"
  define r where "r = hd (B' @ [t])"
  have pred: "pred_at s h v ns i = Node p" by (simp add: pred_at_def p_def A_def)
  have succ: "succ_at s t v ns' i = Node r" by (simp add: succ_at_def r_def B'_def)
  have split: "lev s i ns = A @ above s v i ns" unfolding A_def by (rule lev_split[OF sk])
  have dist: "distinct (h # A @ above s v i ns @ [t])" unfolding A_def by (rule distinct_level[OF sk])
  have tnext: "read_next s (Node t) i = Inr (Null, False)"
    and mch: "mchain s i M h (lev s i ns) (Node t)"
    using pl i by (auto simp: part_links_def)
  have leftA: "left \<in> set (h # A)"
    using left by (auto simp: A_def below_props)
  have Alt: "\<forall>y \<in> set A. nval s y < v" by (simp add: A_def below_props)
  have alloc_ns: "\<And>a. a \<in> set ns \<Longrightarrow> alloc s a" using sk by (simp add: skel_def)
  have alloc_t: "alloc s t" and val_t: "nval s t = VAL_MAX" and ht: "h \<noteq> t" and hns: "h \<notin> set ns"
    and tns: "t \<notin> set ns"
    using sk by (simp_all add: skel_def)
  have pA: "p \<in> set (h # A)" unfolding p_def by (rule last_in_set) simp
  have B'sub: "set B' \<subseteq> set (above s v i ns)"
    by (auto simp: B'_def ns'_def above_props)
  have r_in: "r = t \<or> r \<in> set B'" unfolding r_def by (cases B') auto
  have r_alloc: "alloc s r" using r_in alloc_t alloc_ns B'sub by (auto simp: above_props)
  have r_ge: "v \<le> nval s r" using r_in val_t v B'sub by (auto simp: above_props)
  have as: "arr_set pa i (Node p) = Inr (arr_upd pa i (Node p))"
      "arr_set sa i (Node r) = Inr (arr_upd sa i (Node r))"
    using arrs i by (simp_all add: arr_set_ok)
  show ?thesis
  proof (cases "M = {d} \<and> i < ntop s d")
    case False
    \<comment> \<open>no marked node on this level\<close>
    have Mlev: "set (lev s i ns) \<inter> M = {}" "h \<notin> M"
      using False M hns by (auto simp: lev_def)
    then have ch: "chain s i h (lev s i ns) (Node t)"
      using mch by (simp add: mchain_clean)
    have levs: "lev s i ns' = lev s i ns"
      unfolding ns'_def lev_filter using Mlev(1) by (auto simp: filter_id_conv)
    have B'eq: "above s v i ns = B'"
    proof (cases "M = {}")
      case True
      then show ?thesis by (simp add: B'_def ns'_def)
    next
      case ne: False
      with M False have "M = {d}" "d \<in> set ns" "nval s d = v" "\<not> i < ntop s d" by auto
      then show ?thesis
        using above_marked[OF sk, of d v i] by (simp add: B'_def ns'_def)
    qed
    have chA: "chain s i h A (Node r)"
    proof (cases B')
      case Nil
      then show ?thesis using ch split B'eq by (simp add: r_def)
    next
      case (Cons b bs)
      then show ?thesis using ch split B'eq by (simp add: r_def chain_append)
    qed
    have rnext: "\<exists>q. read_next s (Node r) i = Inr (q, False)"
    proof (cases B')
      case Nil
      then show ?thesis using tnext by (simp add: r_def)
    next
      case (Cons b bs)
      then have "chain s i b bs (Node t)" using ch split B'eq by (simp add: chain_append)
      then show ?thesis using Cons by (cases bs) (auto simp: r_def)
    qed
    then obtain q where q: "read_next s (Node r) i = Inr (q, False)" by blast
    from chain_from_member[OF chA leftA] obtain ys where
      ys: "chain s i left ys (Node r)" "set ys \<subseteq> set A" "last (left # ys) = p"
      by (auto simp: p_def)
    have fp: "find_pair s v i (Node left) (Node (hd (ys @ [r]))) (Node (hd (ys @ [r]))) =
         Some (Inr (Node p, Node r, Node r))"
      using find_pair_walk[OF ys(1) _ skip_marked_clean[OF q] r_alloc r_ge] ys(2,3) Alt by auto
    have rl: "read_next s (Node left) i = Inr (Node (hd (ys @ [r])), False)"
      by (rule chain_hd[OF ys(1)])
    have eq: "search_levels v (Suc i) s (Node left) pa sa =
        search_levels v i s (Node p) (arr_upd pa i (Node p)) (arr_upd sa i (Node r))"
      using rl fp as by (simp add: is_marked_def)
    have pl': "part_links s h t ns M i"
      unfolding part_links_def
    proof (intro allI impI conjI)
      fix j assume j: "j < levelmax s"
      show "read_next s (Node t) j = Inr (Null, False)" using pl j by (simp add: part_links_def)
      show "if j < i then mchain s j M h (lev s j ns) (Node t)
            else chain s j h (lev s j (filter (\<lambda>a. a \<notin> M) ns)) (Node t)"
      proof (cases "j = i")
        case True
        then show ?thesis using ch levs by (simp add: ns'_def)
      next
        case False
        then show ?thesis using pl j by (auto simp: part_links_def)
      qed
    qed
    show ?thesis
      using eq pl' pred succ by (intro exI[of _ s]) (simp add: ns'_def)
  next
    case True
    \<comment> \<open>the marked node is on this level, right after the nodes below \<open>v\<close>\<close>
    with M have Md: "M = {d}" and dns: "d \<in> set ns" and dv: "nval s d = v" and dtop: "i < ntop s d"
      by auto
    have ab: "above s v i ns = d # B'"
      using above_marked[OF sk dns dv, of i] dtop by (simp add: B'_def ns'_def Md)
    have dA: "d \<notin> set A" using dv by (simp add: A_def below_props)
    have dB': "d \<notin> set B'" using dist ab by auto
    have hd_: "h \<noteq> d" using hns dns by auto
    have dt: "d \<noteq> t" using tns dns by auto
    from mch split ab have m1: "mchain s i M h A (Node d)" and m2: "mchain s i M d B' (Node t)"
      by (simp_all add: mchain_append)
    have chA: "chain s i h A (Node d)"
      using m1 dA hd_ by (simp add: mchain_clean Md)
    have dnext: "read_next s (Node d) i = Inr (Node r, True)"
      using m2 by (cases B') (auto simp: r_def Md)
    have rnext: "\<exists>q. read_next s (Node r) i = Inr (q, False)"
    proof (cases B')
      case Nil
      then show ?thesis using tnext by (simp add: r_def)
    next
      case (Cons b bs)
      then have "mchain s i M b bs (Node t)" using m2 by simp
      moreover have "b \<notin> M" using dB' Cons Md by auto
      ultimately show ?thesis using Cons by (cases bs) (auto simp: r_def)
    qed
    then obtain q where q: "read_next s (Node r) i = Inr (q, False)" by blast
    from chain_from_member[OF chA leftA] obtain ys where
      ys: "chain s i left ys (Node d)" "set ys \<subseteq> set A" "last (left # ys) = p"
      by (auto simp: p_def)
    have fp: "find_pair s v i (Node left) (Node (hd (ys @ [d]))) (Node (hd (ys @ [d]))) =
         Some (Inr (Node p, Node d, Node r))"
      using find_pair_walk[OF ys(1) _ skip_marked_one[OF dnext q] r_alloc r_ge] ys(2,3) Alt by auto
    have rl: "read_next s (Node left) i = Inr (Node (hd (ys @ [d])), False)"
      by (rule chain_hd[OF ys(1)])
    have dr: "d \<noteq> r" using r_in dt dB' by auto
    have pnext: "read_next s (Node p) i = Inr (Node d, False)"
      using chain_last[OF ys(1)] ys(3) by simp
    from cas_next_hit[OF pnext, of "(Node r, False)"] obtain s' where
      cas: "cas_next s (Node p) i (Node d, False) (Node r, False) = Inr (True, s')"
      and sn: "same_nodes s s'" and sd: "seed s' = seed s"
      and rd: "\<And>x j. read_next s' x j = (if x = Node p \<and> j = i then Inr (Node r, False) else read_next s x j)"
      by blast
    have eq: "search_levels v (Suc i) s (Node left) pa sa =
        search_levels v i s' (Node p) (arr_upd pa i (Node p)) (arr_upd sa i (Node r))"
      using rl fp as cas dr by (simp add: is_marked_def)
    have pB': "p \<notin> set B'" using pA dist ab by auto
    have pt: "p \<noteq> t" using pA dist by auto
    have pd: "p \<noteq> d" using pA dA hd_ by auto
    have chA': "chain s' i h A (Node r)"
    proof (rule chain_relink[OF chA])
      show "distinct (h # A)" using dist by simp
      show "read_next s' (Node (last (h # A))) i = Inr (Node r, False)"
        using rd by (simp add: p_def)
      show "\<forall>x \<in> set (h # A). x \<noteq> last (h # A) \<longrightarrow> read_next s' (Node x) i = read_next s (Node x) i"
        using rd by (simp add: p_def)
    qed
    have lev': "lev s i ns' = A @ B'"
    proof -
      have "lev s i ns' = filter (\<lambda>a. a \<noteq> d) (A @ d # B')"
        unfolding ns'_def lev_filter split ab Md by simp
      also have "\<dots> = A @ B'"
      proof -
        have "filter (\<lambda>a. a \<noteq> d) A = A" "filter (\<lambda>a. a \<noteq> d) B' = B'"
          using dA dB' by (auto simp: filter_id_conv)
        then show ?thesis by simp
      qed
      finally show ?thesis .
    qed
    have chI: "chain s' i h (lev s i ns') (Node t)"
    proof (cases B')
      case Nil
      then show ?thesis using chA' lev' by (simp add: r_def)
    next
      case (Cons b bs)
      then have "mchain s i M b bs (Node t)" using m2 by simp
      moreover have "b \<notin> M" "set bs \<inter> M = {}" using dB' Cons Md by auto
      ultimately have "chain s i b bs (Node t)" by (simp add: mchain_clean)
      then have "chain s' i b bs (Node t)"
        by (rule chain_cong) (use rd pB' Cons in auto)
      then show ?thesis using chA' lev' Cons by (simp add: r_def chain_append)
    qed
    have pl': "part_links s' h t ns M i"
      unfolding part_links_def
    proof (intro allI impI conjI)
      fix j assume j: "j < levelmax s'"
      then have j': "j < levelmax s" using sn by (simp add: same_nodes_obs)
      show "read_next s' (Node t) j = Inr (Null, False)"
        using pl j' rd pt by (simp add: part_links_def)
      show "if j < i then mchain s' j M h (lev s' j ns) (Node t)
            else chain s' j h (lev s' j (filter (\<lambda>a. a \<notin> M) ns)) (Node t)"
      proof (cases "j = i")
        case True
        then show ?thesis using chI sn by (simp add: ns'_def same_nodes_obs)
      next
        case False
        have same: "\<And>x. read_next s' (Node x) j = read_next s (Node x) j"
          using rd False by simp
        show ?thesis
        proof (cases "j < i")
          case True
          then have "mchain s j M h (lev s j ns) (Node t)" using pl j' by (simp add: part_links_def)
          then have "mchain s' j M h (lev s j ns) (Node t)"
            by (rule mchain_cong) (simp add: same)
          then show ?thesis using True sn by (simp add: same_nodes_obs)
        next
          case nlt: False
          then have "chain s j h (lev s j (filter (\<lambda>a. a \<notin> M) ns)) (Node t)"
            using pl j' False by (simp add: part_links_def)
          then have "chain s' j h (lev s j (filter (\<lambda>a. a \<notin> M) ns)) (Node t)"
            by (rule chain_cong) (simp add: same)
          then show ?thesis using nlt sn by (simp add: same_nodes_obs)
        qed
      qed
    qed
    have "\<forall>j. read_next s' (Node d) j = read_next s (Node d) j"
      using rd pd by simp
    then show ?thesis
      using eq pl' pred succ sn sd Md by (intro exI[of _ s']) (simp add: ns'_def)
  qed
qed

lemma search_levels_ok:
  assumes "skel s h t ns" and "v \<le> VAL_MAX"
    and "M = {} \<or> (M = {d} \<and> d \<in> set ns \<and> nval s d = v)"
    and "part_links s h t ns M n" and "n \<le> levelmax s"
    and "left = h \<or> (left \<in> set ns \<and> nval s left < v \<and> n \<le> ntop s left)"
    and "arr_ok (levelmax s) pa" "arr_ok (levelmax s) sa"
  shows "\<exists>s'. search_levels v n s (Node left) pa sa =
               Some (Inr (False, s', arr_fill n (pred_at s h v ns) pa,
                          arr_fill n (succ_at s t v (filter (\<lambda>a. a \<notin> M) ns)) sa)) \<and>
             same_nodes s s' \<and> seed s' = seed s \<and> part_links s' h t ns M 0 \<and> (M = {} \<longrightarrow> s' = s) \<and>
             (\<forall>j. read_next s' (Node d) j = read_next s (Node d) j)"
  using assms
proof (induction n arbitrary: s left pa sa)
  case 0
  then show ?case by simp
next
  case (Suc i)
  let ?ns' = "filter (\<lambda>a. a \<notin> M) ns"
  have i: "i < levelmax s" using Suc.prems(5) by simp
  have left: "left = h \<or> (left \<in> set ns \<and> nval s left < v \<and> i < ntop s left)"
    using Suc.prems(6) by auto
  from level_step[OF Suc.prems(1,2,3,4) i left Suc.prems(7,8)] obtain s1 where
    eq: "search_levels v (Suc i) s (Node left) pa sa =
         search_levels v i s1 (pred_at s h v ns i) (arr_upd pa i (pred_at s h v ns i))
           (arr_upd sa i (succ_at s t v ?ns' i))"
    and sn: "same_nodes s s1" and sd: "seed s1 = seed s" and pl: "part_links s1 h t ns M i"
    and id: "M = {} \<longrightarrow> s1 = s"
    and rd: "\<forall>j. read_next s1 (Node d) j = read_next s (Node d) j"
    by blast
  obtain p where p: "pred_at s h v ns i = Node p" by (simp add: pred_at_def)
  from pred_at_cases[OF p] have pc: "p = h \<or> (p \<in> set ns \<and> nval s1 p < v \<and> i \<le> ntop s1 p)"
    using sn by (auto simp: same_nodes_obs)
  have sk1: "skel s1 h t ns" by (rule skel_same_nodes[OF sn Suc.prems(1)])
  have M1: "M = {} \<or> (M = {d} \<and> d \<in> set ns \<and> nval s1 d = v)"
    using Suc.prems(3) sn by (simp add: same_nodes_obs)
  have lm: "levelmax s1 = levelmax s" using sn by (simp add: same_nodes_obs)
  from Suc.IH[OF sk1 Suc.prems(2) M1 pl _ pc, of "arr_upd pa i (Node p)" "arr_upd sa i (succ_at s t v ?ns' i)"]
  obtain s' where
    r: "search_levels v i s1 (Node p) (arr_upd pa i (Node p)) (arr_upd sa i (succ_at s t v ?ns' i)) =
        Some (Inr (False, s', arr_fill i (pred_at s1 h v ns) (arr_upd pa i (Node p)),
                   arr_fill i (succ_at s1 t v ?ns') (arr_upd sa i (succ_at s t v ?ns' i))))"
    and sn': "same_nodes s1 s'" and sd': "seed s' = seed s1" and pl': "part_links s' h t ns M 0"
    and id': "M = {} \<longrightarrow> s' = s1"
    and rd': "\<forall>j. read_next s' (Node d) j = read_next s1 (Node d) j"
    using i lm Suc.prems(7,8) by auto
  have f1: "arr_fill i (pred_at s1 h v ns) (arr_upd pa i (Node p)) = arr_fill (Suc i) (pred_at s h v ns) pa"
    using arr_fill_upd[OF Suc.prems(7) i, of "pred_at s h v ns"] p sn by (simp add: same_nodes_obs)
  have f2: "arr_fill i (succ_at s1 t v ?ns') (arr_upd sa i (succ_at s t v ?ns' i)) =
            arr_fill (Suc i) (succ_at s t v ?ns') sa"
    using arr_fill_upd[OF Suc.prems(8) i, of "succ_at s t v ?ns'"] sn by (simp add: same_nodes_obs)
  show ?case
    using eq r f1 f2 p same_nodes_trans[OF sn sn'] sd sd' pl' id id' rd rd'
    by (intro exI[of _ s']) simp
qed

lemma shortcut_head:
  assumes "head_table h t tbl" and "alloc s h" and "alloc s t" and "v < nval s t"
  shows "k < length tbl \<Longrightarrow> shortcut s tbl v (int k) (node (tbl ! k)) = Inr (Node h)"
proof (induction k)
  case 0
  from deref_alloc[OF assms(2)] obtain n where "deref s (Node h) = Inr n" by blast
  then show ?case using assms(1) by (subst shortcut.simps) (simp add: head_table_def)
next
  case (Suc k)
  from deref_alloc[OF assms(3)] obtain n where n: "deref s (Node t) = Inr n" "val n = nval s t" by blast
  have nd: "node (tbl ! Suc k) = Node t" using assms(1) Suc.prems by (simp add: head_table_def)
  have tg: "tab_get tbl (int k) = Inr (tbl ! k)" using Suc.prems by (simp add: tab_get_def)
  have "shortcut s tbl v (int (Suc k)) (node (tbl ! Suc k)) = shortcut s tbl v (int k) (node (tbl ! k))"
    by (subst shortcut.simps) (use n nd tg assms(4) in simp)
  then show ?case using Suc by simp
qed

lemma shortcut_start_head:
  assumes "head_table h t tbl" and "alloc s h" and "alloc s t" and "v < nval s t"
    and "0 \<le> bucket est table_size v" and "bucket est table_size v < int (length tbl)"
  shows "shortcut_start s est tbl table_size v = Inr (Node h)"
proof -
  define k where "k = nat (bucket est table_size v)"
  have k: "bucket est table_size v = int k" "k < length tbl" using assms(5,6) by (simp_all add: k_def)
  have "tab_get tbl (int k) = Inr (tbl ! k)" using k by (simp add: tab_get_def)
  then show ?thesis
    using shortcut_head[OF assms(1-4) k(2)] k by (simp add: shortcut_start_def)
qed

text \<open>
  The search from the head on a list whose levels below \<open>levelmax\<close> may hold the marked
  node \<open>d\<close> with the value searched for: it unlinks \<open>d\<close> on every level and returns the
  neighbours of \<open>v\<close> on every level. Without a marked node it leaves the world as it is.
\<close>

lemma fraser_search_ok:
  assumes sk: "skel s h t ns" and v: "v < VAL_MAX"
    and M: "M = {} \<or> (M = {d} \<and> d \<in> set ns \<and> nval s d = v)"
    and pl: "part_links s h t ns M (levelmax s)"
    and tbl: "head_table h t tbl" "0 \<le> bucket est table_size v" "bucket est table_size v < int (length tbl)"
    and arrs: "arr_ok (levelmax s) pa" "arr_ok (levelmax s) sa"
  shows "\<exists>s'. fraser_search s v pa sa est tbl table_size =
               Some (Inr (s', arr_fill (levelmax s) (pred_at s h v ns) pa,
                          arr_fill (levelmax s) (succ_at s t v (filter (\<lambda>a. a \<notin> M) ns)) sa)) \<and>
             same_nodes s s' \<and> seed s' = seed s \<and> links s' h t (filter (\<lambda>a. a \<notin> M) ns) \<and>
             (M = {} \<longrightarrow> s' = s) \<and> (\<forall>j. read_next s' (Node d) j = read_next s (Node d) j)"
proof -
  have ah: "alloc s h" and at: "alloc s t" and vt: "nval s t = VAL_MAX" and th: "ntop s h = levelmax s"
    using sk by (simp_all add: skel_def)
  have st: "shortcut_start s est tbl table_size v = Inr (Node h)"
    by (rule shortcut_start_head[OF tbl(1) ah at _ tbl(2,3)]) (use v vt in simp)
  from deref_alloc[OF ah] obtain n where n: "deref s (Node h) = Inr n" "toplevel n = ntop s h" by blast
  from search_levels_ok[where left = h, OF sk _ M pl _ _ arrs] v obtain s' where
    r: "search_levels v (levelmax s) s (Node h) pa sa =
         Some (Inr (False, s', arr_fill (levelmax s) (pred_at s h v ns) pa,
                    arr_fill (levelmax s) (succ_at s t v (filter (\<lambda>a. a \<notin> M) ns)) sa))"
    and sn: "same_nodes s s'" and sd: "seed s' = seed s" and pl': "part_links s' h t ns M 0"
    and id: "M = {} \<longrightarrow> s' = s"
    and rd: "\<forall>j. read_next s' (Node d) j = read_next s (Node d) j"
    by auto
  have "links s' h t (filter (\<lambda>a. a \<notin> M) ns)"
    using pl' by (simp add: part_links_def links_def)
  moreover have "fraser_search s v pa sa est tbl table_size =
      Some (Inr (s', arr_fill (levelmax s) (pred_at s h v ns) pa,
                 arr_fill (levelmax s) (succ_at s t v (filter (\<lambda>a. a \<notin> M) ns)) sa))"
    by (subst fraser_search.simps) (simp add: st n th r)
  ultimately show ?thesis using sn sd id rd by blast
qed

lemma links_part_links: "links s h t ns \<Longrightarrow> part_links s h t ns {} n"
  by (simp add: links_def part_links_def mchain_empty)

section \<open>Membership test and removal\<close>

lemma skel_filter: "skel s h t ns \<Longrightarrow> skel s h t (filter P ns)"
  by (auto simp: skel_def sorted_wrt_map intro: sorted_wrt_filter)

lemma succ0_member:
  assumes sk: "skel s h t ns" and v: "v < VAL_MAX"
  shows "\<exists>r. succ_at s t v ns 0 = Node r \<and> alloc s r \<and>
           (nval s r = v \<longleftrightarrow> (\<exists>a \<in> set ns. nval s a = v)) \<and> (nval s r = v \<longrightarrow> r \<in> set ns)"
proof (cases "above s v 0 ns")
  case Nil
  have "\<not> (\<exists>a \<in> set ns. nval s a = v)"
  proof
    assume "\<exists>a \<in> set ns. nval s a = v"
    then obtain a where "a \<in> set ns" "nval s a = v" by blast
    then have "a \<in> set (above s v 0 ns)" using sk by (auto simp: above_props skel_def)
    with Nil show False by simp
  qed
  moreover have "succ_at s t v ns 0 = Node t" using Nil by (simp add: succ_at_def)
  moreover have "alloc s t" "nval s t \<noteq> v" using sk v by (auto simp: skel_def)
  ultimately show ?thesis by auto
next
  case (Cons b bs)
  then have b: "b \<in> set ns" "\<not> nval s b < v"
    using above_props[of b s v 0 ns] by auto
  have sb: "succ_at s t v ns 0 = Node b" using Cons by (simp add: succ_at_def)
  have "nval s b = v" if "a \<in> set ns" "nval s a = v" for a
  proof -
    have "0 < ntop s a" using sk that by (simp add: skel_def)
    then have "above s v 0 ns = a # above s v 0 (filter (\<lambda>x. x \<notin> {a}) ns)"
      using above_marked[OF sk that, of 0] by simp
    then show ?thesis using Cons that by simp
  qed
  then show ?thesis using sb b sk by (auto simp: skel_def)
qed

lemma value_unique:
  "skel s h t ns \<Longrightarrow> a \<in> set ns \<Longrightarrow> b \<in> set ns \<Longrightarrow> nval s a = nval s b \<Longrightarrow> a = b"
  by (rule sorted_inj[of "nval s" ns]) (auto simp: skel_def)

lemma arr_get_fresh_fill:
  "i < L \<Longrightarrow> arr_get (arr_fill L f (Some (replicate L None))) i = Inr (f i)"
  by (rule arr_get_fill[where L = L]) (auto simp: arr_ok_def)

lemma sl_contains_ok:
  assumes g: "good s h t ns" and v: "v < VAL_MAX"
    and tbl: "head_table h t tbl" "0 \<le> bucket est table_size v" "bucket est table_size v < int (length tbl)"
  shows "sl_contains s est tbl table_size v =
         Some (Inr (if (\<exists>a \<in> set ns. nval s a = v \<and> ndel s a = 0) then 1 else 0, s))"
proof -
  from g have sk: "skel s h t ns" and ln: "links s h t ns" by (simp_all add: good_def)
  have L: "0 < levelmax s" using sk by (simp add: skel_def)
  let ?sa = "Some (replicate (levelmax s) None)"
  from fraser_search_ok[where M = "{}" and pa = None and sa = ?sa, OF sk v _ links_part_links[OF ln] tbl]
  have fs: "fraser_search s v None ?sa est tbl table_size =
      Some (Inr (s, arr_fill (levelmax s) (pred_at s h v ns) None,
                 arr_fill (levelmax s) (succ_at s t v ns) ?sa))"
    by (auto simp: arr_ok_def)
  from succ0_member[OF sk v] obtain r where r: "succ_at s t v ns 0 = Node r" "alloc s r"
    "nval s r = v \<longleftrightarrow> (\<exists>a \<in> set ns. nval s a = v)" "nval s r = v \<longrightarrow> r \<in> set ns"
    by blast
  from deref_alloc[OF r(2)] obtain n where n: "deref s (Node r) = Inr n" "val n = nval s r"
    "deleted n = ndel s r" by blast
  have ag: "arr_get (arr_fill (levelmax s) (succ_at s t v ns) ?sa) 0 = Inr (Node r)"
    using arr_get_fresh_fill[OF L, of "succ_at s t v ns"] r(1) by simp
  have "(\<exists>a \<in> set ns. nval s a = v \<and> ndel s a = 0) \<longleftrightarrow> (nval s r = v \<and> ndel s r = 0)"
    using r(3,4) value_unique[OF sk] by metis
  then show ?thesis
    unfolding sl_contains_def using fs ag n by simp
qed

lemma set_deleted_effect:
  assumes "alloc s d"
  shows "\<exists>s'. set_deleted s (Node d) = Inr s' \<and> brk s' = brk s \<and> levelmax s' = levelmax s \<and>
      seed s' = seed s \<and> alloc s' = alloc s \<and> nval s' = nval s \<and> ntop s' = ntop s \<and>
      nslots s' = nslots s \<and> ndel s' = (ndel s)(d := ndel s d + 1) \<and>
      (\<forall>x j. read_next s' x j = read_next s x j)"
proof -
  from assms obtain n where n: "heap s d = Some n" by (auto simp: alloc_def)
  let ?s' = "s\<lparr>heap := (heap s)(d \<mapsto> n\<lparr>deleted := deleted n + 1\<rparr>)\<rparr>"
  have "set_deleted s (Node d) = Inr ?s'" using n by (simp add: set_deleted_def)
  moreover have "\<forall>x j. read_next ?s' x j = read_next s x j"
  proof (intro allI)
    fix x j show "read_next ?s' x j = read_next s x j"
      using n by (cases x) (auto simp: read_next_def deref_def)
  qed
  moreover have "alloc ?s' = alloc s" "nval ?s' = nval s" "ntop ?s' = ntop s" "nslots ?s' = nslots s"
    "ndel ?s' = (ndel s)(d := ndel s d + 1)"
    using n by (auto simp: fun_eq_iff alloc_def nval_def ntop_def nslots_def ndel_def)
  ultimately show ?thesis by (intro exI[of _ ?s']) simp
qed

lemma skel_cong:
  "brk s' = brk s \<Longrightarrow> levelmax s' = levelmax s \<Longrightarrow> alloc s' = alloc s \<Longrightarrow> nval s' = nval s \<Longrightarrow>
   ntop s' = ntop s \<Longrightarrow> nslots s' = nslots s \<Longrightarrow> skel s' h t ns = skel s h t ns"
  by (simp add: skel_def)

lemma links_cong:
  "levelmax s' = levelmax s \<Longrightarrow> ntop s' = ntop s \<Longrightarrow> \<forall>x j. read_next s' x j = read_next s x j \<Longrightarrow>
   links s' h t ns = links s h t ns"
proof -
  assume a: "levelmax s' = levelmax s" "ntop s' = ntop s" "\<forall>x j. read_next s' x j = read_next s x j"
  have "chain s' i h xs b = chain s i h xs b" for i xs b
    using chain_cong[of s i h xs b s'] chain_cong[of s' i h xs b s] a(3) by auto
  then show ?thesis using a by (simp add: links_def lev_def)
qed

lemma mark_level_ok:
  assumes "read_next s (Node d) i = Inr (q, False)"
  shows "\<exists>s'. mark_level s (Node d) i = Some (Inr s') \<and> same_nodes s s' \<and> seed s' = seed s \<and>
      (\<forall>x j. read_next s' x j = (if x = Node d \<and> j = i then Inr (q, True) else read_next s x j))"
proof -
  from cas_next_hit[OF assms, of "(q, True)"] obtain s' where
    c: "cas_next s (Node d) i (q, False) (q, True) = Inr (True, s')" and
    r: "same_nodes s s'" "seed s' = seed s"
      "\<forall>x j. read_next s' x j = (if x = Node d \<and> j = i then Inr (q, True) else read_next s x j)"
    by blast
  have "mark_level s (Node d) i = Some (Inr s')"
    by (subst mark_level.simps) (simp add: assms is_marked_def set_mark_def c)
  with r show ?thesis by blast
qed

lemma mark_levels_ok:
  assumes "\<forall>i<n. \<exists>q. read_next s (Node d) i = Inr (q, False)"
  shows "\<exists>s'. mark_levels s (Node d) n = Some (Inr s') \<and> same_nodes s s' \<and> seed s' = seed s \<and>
      (\<forall>x j. read_next s' x j =
         (if x = Node d \<and> j < n then Inr (fst (projr (read_next s x j)), True) else read_next s x j))"
  using assms
proof (induction n arbitrary: s)
  case 0
  then show ?case by simp
next
  case (Suc i)
  from Suc.prems obtain q where q: "read_next s (Node d) i = Inr (q, False)" by auto
  from mark_level_ok[OF q] obtain s1 where
    m: "mark_level s (Node d) i = Some (Inr s1)" and sn: "same_nodes s s1" and sd: "seed s1 = seed s"
    and rd: "\<forall>x j. read_next s1 x j = (if x = Node d \<and> j = i then Inr (q, True) else read_next s x j)"
    by blast
  have pre: "\<forall>j<i. \<exists>q. read_next s1 (Node d) j = Inr (q, False)"
    using Suc.prems rd by auto
  from Suc.IH[OF pre] obtain s' where
    ms: "mark_levels s1 (Node d) i = Some (Inr s')" and sn': "same_nodes s1 s'" and sd': "seed s' = seed s1"
    and rd': "\<forall>x j. read_next s' x j =
         (if x = Node d \<and> j < i then Inr (fst (projr (read_next s1 x j)), True) else read_next s1 x j)"
    by blast
  have "\<forall>x j. read_next s' x j =
         (if x = Node d \<and> j < Suc i then Inr (fst (projr (read_next s x j)), True) else read_next s x j)"
    using rd rd' q by (auto simp: less_Suc_eq)
  then show ?case
    using m ms same_nodes_trans[OF sn sn'] sd sd' by (intro exI[of _ s']) simp
qed

lemma chain_to_mchain:
  assumes "chain s i a xs b"
    and "\<forall>x \<in> set (a # xs). read_next s' (Node x) i =
           (if x \<in> M then Inr (fst (projr (read_next s (Node x) i)), True) else read_next s (Node x) i)"
  shows "mchain s' i M a xs b"
  using assms by (induction xs arbitrary: a) auto

text \<open>Marking all forward references of a node \<open>d\<close> of a quiescent list.\<close>

lemma mark_node_ptrs_ok:
  assumes sk: "skel s h t ns" and ln: "links s h t ns" and d: "d \<in> set ns"
  shows "\<exists>s'. mark_node_ptrs s (Node d) = Some (Inr s') \<and> same_nodes s s' \<and> seed s' = seed s \<and>
      part_links s' h t ns {d} (levelmax s') \<and>
      (\<forall>j < ntop s d. \<exists>q. read_next s' (Node d) j = Inr (q, True))"
proof -
  have ad: "alloc s d" and top: "ntop s d \<le> levelmax s" using sk d by (auto simp: skel_def)
  from deref_alloc[OF ad] obtain n where n: "deref s (Node d) = Inr n" "toplevel n = ntop s d" by blast
  have unm: "\<forall>i < ntop s d. \<exists>q. read_next s (Node d) i = Inr (q, False)"
  proof (intro allI impI)
    fix i assume i: "i < ntop s d"
    then have "chain s i h (lev s i ns) (Node t)" using ln top by (simp add: links_def)
    moreover have "d \<in> set (h # lev s i ns)" using d i by (simp add: lev_def)
    ultimately show "\<exists>q. read_next s (Node d) i = Inr (q, False)" by (rule chain_nodes_read)
  qed
  from mark_levels_ok[OF unm] obtain s' where
    ms: "mark_levels s (Node d) (ntop s d) = Some (Inr s')" and sn: "same_nodes s s'"
    and sd: "seed s' = seed s"
    and rd: "\<forall>x j. read_next s' x j =
         (if x = Node d \<and> j < ntop s d then Inr (fst (projr (read_next s x j)), True) else read_next s x j)"
    by blast
  have dt: "d \<noteq> t" "d \<noteq> h" using sk d by (auto simp: skel_def)
  have "part_links s' h t ns {d} (levelmax s')"
    unfolding part_links_def
  proof (intro allI impI conjI)
    fix i assume "i < levelmax s'"
    then have i: "i < levelmax s" using sn by (simp add: same_nodes_obs)
    show "read_next s' (Node t) i = Inr (Null, False)"
      using ln i rd dt by (simp add: links_def)
    have ch: "chain s i h (lev s i ns) (Node t)" using ln i by (simp add: links_def)
    have "mchain s' i {d} h (lev s i ns) (Node t)"
    proof (rule chain_to_mchain[OF ch], intro ballI)
      fix x assume x: "x \<in> set (h # lev s i ns)"
      show "read_next s' (Node x) i =
           (if x \<in> {d} then Inr (fst (projr (read_next s (Node x) i)), True) else read_next s (Node x) i)"
      proof (cases "x = d")
        case True
        then have "i < ntop s d" using x dt by (auto simp: lev_def)
        then show ?thesis using rd True by simp
      next
        case False
        then show ?thesis using rd by simp
      qed
    qed
    then show "if i < levelmax s' then mchain s' i {d} h (lev s' i ns) (Node t)
               else chain s' i h (lev s' i (filter (\<lambda>a. a \<notin> {d}) ns)) (Node t)"
      using i sn by (simp add: same_nodes_obs)
  qed
  moreover have "\<forall>j < ntop s d. \<exists>q. read_next s' (Node d) j = Inr (q, True)"
    using rd by simp
  moreover have "mark_node_ptrs s (Node d) = Some (Inr s')"
    using n ms by (simp add: mark_node_ptrs_def)
  ultimately show ?thesis using sn sd by blast
qed

lemma sl_remove_absent:
  assumes g: "good s h t ns" and v: "v < VAL_MAX"
    and tbl: "head_table h t tbl" "0 \<le> bucket est table_size v" "bucket est table_size v < int (length tbl)"
    and no: "\<not> (\<exists>a \<in> set ns. nval s a = v \<and> ndel s a = 0)"
  shows "sl_remove s est tbl table_size v = Some (Inr (0, s))"
proof -
  from g have sk: "skel s h t ns" and ln: "links s h t ns" by (simp_all add: good_def)
  have L: "0 < levelmax s" using sk by (simp add: skel_def)
  let ?sa = "Some (replicate (levelmax s) None)"
  from fraser_search_ok[where M = "{}" and pa = None and sa = ?sa, OF sk v _ links_part_links[OF ln] tbl]
  have fs: "fraser_search s v None ?sa est tbl table_size =
      Some (Inr (s, arr_fill (levelmax s) (pred_at s h v ns) None,
                 arr_fill (levelmax s) (succ_at s t v ns) ?sa))"
    by (auto simp: arr_ok_def)
  from succ0_member[OF sk v] obtain r where r: "succ_at s t v ns 0 = Node r" "alloc s r"
    "nval s r = v \<longleftrightarrow> (\<exists>a \<in> set ns. nval s a = v)" "nval s r = v \<longrightarrow> r \<in> set ns"
    by blast
  from deref_alloc[OF r(2)] obtain n where n: "deref s (Node r) = Inr n" "val n = nval s r"
    "deleted n = ndel s r" by blast
  have ag: "arr_get (arr_fill (levelmax s) (succ_at s t v ns) ?sa) 0 = Inr (Node r)"
    using arr_get_fresh_fill[OF L, of "succ_at s t v ns"] r(1) by simp
  have "nval s r \<noteq> v \<or> ndel s r \<noteq> 0" using no r(4) by auto
  then show ?thesis
    unfolding sl_remove_def using fs ag n by auto
qed

lemma sl_remove_present:
  assumes g: "good s h t ns" and v: "v < VAL_MAX"
    and tbl: "head_table h t tbl" "0 \<le> bucket est table_size v" "bucket est table_size v < int (length tbl)"
    and d: "d \<in> set ns" "nval s d = v" "ndel s d = 0"
  shows "\<exists>s'. sl_remove s est tbl table_size v = Some (Inr (1, s')) \<and>
      good s' h t (filter (\<lambda>a. a \<notin> {d}) ns) \<and> nval s' = nval s \<and> ndel s' = (ndel s)(d := 1) \<and>
      alloc s' = alloc s \<and> brk s' = brk s \<and> levelmax s' = levelmax s \<and> seed s' = seed s \<and>
      (\<forall>j < ntop s d. \<exists>q. read_next s' (Node d) j = Inr (q, True))"
proof -
  from g have sk: "skel s h t ns" and ln: "links s h t ns" by (simp_all add: good_def)
  have L: "0 < levelmax s" using sk by (simp add: skel_def)
  let ?sa = "Some (replicate (levelmax s) None)"
  from fraser_search_ok[where M = "{}" and pa = None and sa = ?sa, OF sk v _ links_part_links[OF ln] tbl]
  have fs: "fraser_search s v None ?sa est tbl table_size =
      Some (Inr (s, arr_fill (levelmax s) (pred_at s h v ns) None,
                 arr_fill (levelmax s) (succ_at s t v ns) ?sa))"
    by (auto simp: arr_ok_def)
  from succ0_member[OF sk v] obtain r where r: "succ_at s t v ns 0 = Node r" "alloc s r"
    "nval s r = v \<longleftrightarrow> (\<exists>a \<in> set ns. nval s a = v)" "nval s r = v \<longrightarrow> r \<in> set ns"
    by blast
  have rd: "r = d" using r(3,4) d value_unique[OF sk, of r d] by auto
  have ad: "alloc s d" using r(2) rd by simp
  from deref_alloc[OF ad] obtain n where n: "deref s (Node d) = Inr n" "val n = nval s d"
    "deleted n = ndel s d" by blast
  have ag: "arr_get (arr_fill (levelmax s) (succ_at s t v ns) ?sa) 0 = Inr (Node d)"
    using arr_get_fresh_fill[OF L, of "succ_at s t v ns"] r(1) rd by simp
  from set_deleted_effect[OF ad] obtain s2 where
    sd: "set_deleted s (Node d) = Inr s2" and e2: "brk s2 = brk s" "levelmax s2 = levelmax s"
      "seed s2 = seed s" "alloc s2 = alloc s" "nval s2 = nval s" "ntop s2 = ntop s"
      "nslots s2 = nslots s" "ndel s2 = (ndel s)(d := ndel s d + 1)"
      "\<forall>x j. read_next s2 x j = read_next s x j"
    by blast
  have sk2: "skel s2 h t ns" using sk skel_cong[OF e2(1,2,4,5,6,7)] by simp
  have ln2: "links s2 h t ns" using ln links_cong[OF e2(2,6,9)] by simp
  from mark_node_ptrs_ok[OF sk2 ln2 d(1)] obtain s3 where
    mk: "mark_node_ptrs s2 (Node d) = Some (Inr s3)" and sn3: "same_nodes s2 s3"
    and sd3: "seed s3 = seed s2" and pl3: "part_links s3 h t ns {d} (levelmax s3)"
    and mk3: "\<forall>j < ntop s2 d. \<exists>q. read_next s3 (Node d) j = Inr (q, True)"
    by blast
  have sk3: "skel s3 h t ns" by (rule skel_same_nodes[OF sn3 sk2])
  have M3: "{d} = {} \<or> ({d} = {d} \<and> d \<in> set ns \<and> nval s3 d = v)"
    using d sn3 e2 by (simp add: same_nodes_obs)
  from fraser_search_ok[where pa = None and sa = None, OF sk3 v M3 pl3 tbl] obtain s4 where
    fs4: "fraser_search s3 v None None est tbl table_size =
          Some (Inr (s4, arr_fill (levelmax s3) (pred_at s3 h v ns) None,
                     arr_fill (levelmax s3) (succ_at s3 t v (filter (\<lambda>a. a \<notin> {d}) ns)) None))"
    and sn4: "same_nodes s3 s4" and sd4: "seed s4 = seed s3"
    and ln4: "links s4 h t (filter (\<lambda>a. a \<notin> {d}) ns)"
    and rd4: "\<forall>j. read_next s4 (Node d) j = read_next s3 (Node d) j"
    by (auto simp: arr_ok_def)
  have sk4: "skel s4 h t (filter (\<lambda>a. a \<notin> {d}) ns)"
    by (rule skel_filter[OF skel_same_nodes[OF sn4 sk3]])
  have sn24: "same_nodes s2 s4" by (rule same_nodes_trans[OF sn3 sn4])
  have res: "sl_remove s est tbl table_size v = Some (Inr (1, s4))"
    unfolding sl_remove_def using fs ag n d sd mk fs4 by simp
  have "ndel s4 = (ndel s)(d := 1)"
    using sn24 e2 d by (simp add: same_nodes_obs)
  moreover have "\<forall>j < ntop s d. \<exists>q. read_next s4 (Node d) j = Inr (q, True)"
    using mk3 rd4 e2 by simp
  ultimately show ?thesis
    using res sk4 ln4 sn24 e2 sd3 sd4 by (intro exI[of _ s4]) (simp add: good_def same_nodes_obs)
qed

section \<open>Insertion\<close>

lemma level_loop_ge: "l \<le> level_loop tmp l"
proof (induction tmp l rule: level_loop.induct)
  case (1 temp level)
  show ?case
  proof (cases "drop_bit 1 temp AND 1 \<noteq> 0")
    case True
    then have "level + 1 \<le> level_loop (drop_bit 1 temp) (level + 1)"
      using "1.IH" by simp
    then show ?thesis using True by (subst level_loop.simps) (simp add: Let_def)
  next
    case False
    then show ?thesis by (subst level_loop.simps) (simp add: Let_def)
  qed
qed

lemma get_rand_level_range:
  assumes "0 < levelmax s"
  shows "\<exists>lvl. get_rand_level s = (lvl, s\<lparr>seed := xorshift (seed s)\<rparr>) \<and> 0 < lvl \<and> lvl \<le> levelmax s"
proof -
  have "1 \<le> level_loop (xorshift (seed s)) 1" by (rule level_loop_ge)
  then show ?thesis using assms by (auto simp: get_rand_level_def Let_def)
qed

lemma seed_update_obs:
  "alloc (s\<lparr>seed := y\<rparr>) = alloc s" "nval (s\<lparr>seed := y\<rparr>) = nval s" "ntop (s\<lparr>seed := y\<rparr>) = ntop s"
  "nslots (s\<lparr>seed := y\<rparr>) = nslots s" "ndel (s\<lparr>seed := y\<rparr>) = ndel s"
  "read_next (s\<lparr>seed := y\<rparr>) = read_next s"
  by (auto simp: fun_eq_iff alloc_def nval_def ntop_def nslots_def ndel_def read_next_def deref_def
           split: ptr.splits)

lemma good_cong:
  assumes "brk s' = brk s" "levelmax s' = levelmax s" "alloc s' = alloc s" "nval s' = nval s"
    "ntop s' = ntop s" "nslots s' = nslots s" "\<forall>x j. read_next s' x j = read_next s x j"
  shows "good s' h t ns = good s h t ns"
  unfolding good_def using skel_cong[OF assms(1-6)] links_cong[OF assms(2,5,7)] by simp

text \<open>Allocating a node leaves a quiescent list as it is.\<close>

lemma new_simple_node_good:
  assumes g: "good s h t ns" and s'_def: "s' = snd (sl_new_simple_node s v lvl)"
  shows "fst (sl_new_simple_node s v lvl) = brk s" and "good s' h t ns"
    and "alloc s' (brk s)" and "nval s' (brk s) = v" and "ntop s' (brk s) = lvl"
    and "nslots s' (brk s) = lvl" and "ndel s' (brk s) = 0"
    and "brk s \<notin> set ns" and "brk s \<noteq> h" and "brk s \<noteq> t"
    and "levelmax s' = levelmax s" and "brk s' = Suc (brk s)" and "seed s' = seed s"
    and "\<And>a. a \<noteq> brk s \<Longrightarrow> alloc s' a = alloc s a \<and> nval s' a = nval s a \<and> ndel s' a = ndel s a \<and>
            ntop s' a = ntop s a"
    and "heap s' = (heap s)(brk s \<mapsto> \<lparr>val = v, toplevel = lvl, deleted = 0, nexts = replicate lvl None\<rparr>)"
proof -
  from g have sk: "skel s h t ns" and ln: "links s h t ns" by (simp_all add: good_def)
  have fresh: "\<not> alloc s (brk s)" using sk by (auto simp: skel_def)
  show hp: "heap s' = (heap s)(brk s \<mapsto> \<lparr>val = v, toplevel = lvl, deleted = 0, nexts = replicate lvl None\<rparr>)"
    by (simp add: s'_def sl_new_simple_node_def)
  show "fst (sl_new_simple_node s v lvl) = brk s" by (simp add: sl_new_simple_node_def)
  show lm: "levelmax s' = levelmax s" and bk: "brk s' = Suc (brk s)" and "seed s' = seed s"
    by (simp_all add: s'_def sl_new_simple_node_def)
  show "alloc s' (brk s)" "nval s' (brk s) = v" "ntop s' (brk s) = lvl" "nslots s' (brk s) = lvl"
    "ndel s' (brk s) = 0"
    by (simp_all add: hp alloc_def nval_def ntop_def nslots_def ndel_def)
  show nin: "brk s \<notin> set ns" "brk s \<noteq> h" "brk s \<noteq> t"
    using sk fresh by (auto simp: skel_def)
  show same: "\<And>a. a \<noteq> brk s \<Longrightarrow> alloc s' a = alloc s a \<and> nval s' a = nval s a \<and>
       ndel s' a = ndel s a \<and> ntop s' a = ntop s a"
    by (simp add: hp alloc_def nval_def ntop_def ndel_def)
  have ns: "\<And>a. a \<noteq> brk s \<Longrightarrow> nslots s' a = nslots s a" by (simp add: hp nslots_def)
  have rd: "\<And>a j. a \<noteq> brk s \<Longrightarrow> read_next s' (Node a) j = read_next s (Node a) j"
    by (simp add: hp read_next_def deref_def)
  have hn: "h \<noteq> brk s" "t \<noteq> brk s" "\<forall>a \<in> set ns. a \<noteq> brk s" using nin by auto
  have mp: "map (nval s') ns = map (nval s) ns"
  proof (rule map_cong[OF refl])
    fix x assume "x \<in> set ns"
    then have "x \<noteq> brk s" using hn by auto
    then show "nval s' x = nval s x" using same by simp
  qed
  have sk': "skel s' h t ns"
    unfolding skel_def lm bk mp
  proof (intro conjI)
    show "\<forall>a. alloc s' a \<longrightarrow> a < Suc (brk s)"
    proof (intro allI impI)
      fix a assume a: "alloc s' a"
      show "a < Suc (brk s)"
      proof (cases "a = brk s")
        case False
        then have "alloc s a" using same a by simp
        then show ?thesis using sk by (auto simp: skel_def less_Suc_eq)
      qed simp
    qed
    show "\<forall>a \<in> set ns. alloc s' a \<and> 0 < ntop s' a \<and> ntop s' a \<le> levelmax s \<and>
            nslots s' a = ntop s' a \<and> nval s' a < VAL_MAX"
      using sk hn same ns by (simp add: skel_def)
  qed (use sk hn same ns in \<open>simp_all add: skel_def\<close>)
  have same_ns: "\<forall>a \<in> set ns. ntop s' a = ntop s a"
  proof
    fix a assume "a \<in> set ns"
    then have "a \<noteq> brk s" using hn by auto
    then show "ntop s' a = ntop s a" using same by simp
  qed
  have lev: "lev s' i ns = lev s i ns" for i
    unfolding lev_def by (rule filter_cong) (use same_ns in auto)
  have ln': "links s' h t ns"
    unfolding links_def
  proof (intro allI impI conjI)
    fix i assume "i < levelmax s'"
    then have i: "i < levelmax s" by (simp add: lm)
    show "read_next s' (Node t) i = Inr (Null, False)" using ln i rd nin by (simp add: links_def)
    have "chain s i h (lev s i ns) (Node t)" using ln i by (simp add: links_def)
    moreover have "\<forall>x \<in> set (h # lev s i ns). read_next s' (Node x) i = read_next s (Node x) i"
    proof
      fix x assume "x \<in> set (h # lev s i ns)"
      then have "x \<noteq> brk s" using hn by (auto simp: lev_def)
      then show "read_next s' (Node x) i = read_next s (Node x) i" by (rule rd)
    qed
    ultimately have "chain s' i h (lev s i ns) (Node t)"
      by (rule chain_cong)
    then show "chain s' i h (lev s' i ns) (Node t)" by (simp add: lev)
  qed
  show "good s' h t ns" using sk' ln' by (simp add: good_def)
qed

lemma copy_succs_ok:
  assumes "alloc s n" and "\<forall>i \<in> set is. i < nslots s n \<and> arr_get succs i = Inr (f i)"
  shows "\<exists>s'. copy_succs s (Node n) succs is = Inr s' \<and> same_nodes s s' \<and> seed s' = seed s \<and>
      (\<forall>x j. read_next s' x j = (if x = Node n \<and> j \<in> set is then Inr (f j, False) else read_next s x j))"
  using assms
proof (induction "is" arbitrary: s)
  case Nil
  then show ?case by simp
next
  case (Cons i "is")
  from write_next_ok[of s n i "(f i, False)"] Cons.prems obtain s1 where
    w: "write_next s (Node n) i (f i, False) = Inr s1" by auto
  note e = write_next_effect[OF w]
  have pre: "alloc s1 n" "\<forall>i \<in> set is. i < nslots s1 n \<and> arr_get succs i = Inr (f i)"
    using Cons.prems e(1) by (auto simp: same_nodes_obs)
  from Cons.IH[OF pre] obtain s' where
    c: "copy_succs s1 (Node n) succs is = Inr s'" and sn: "same_nodes s1 s'" and sd: "seed s' = seed s1"
    and rd: "\<forall>x j. read_next s' x j = (if x = Node n \<and> j \<in> set is then Inr (f j, False) else read_next s1 x j)"
    by blast
  have "\<forall>x j. read_next s' x j =
      (if x = Node n \<and> j \<in> set (i # is) then Inr (f j, False) else read_next s x j)"
    using rd e(3) by auto
  moreover have "copy_succs s (Node n) succs (i # is) = Inr s'"
    using Cons.prems w c by simp
  ultimately show ?case
    using same_nodes_trans[OF e(1) sn] sd e(2) by (intro exI[of _ s']) simp
qed

text \<open>The neighbours of \<open>v\<close> on a level of a quiescent list.\<close>

lemma level_neighbours:
  assumes sk: "skel s h t ns" and ln: "links s h t ns" and i: "i < levelmax s"
  obtains p r where "pred_at s h v ns i = Node p" "succ_at s t v ns i = Node r"
    "p = last (h # below s v i ns)" "r = hd (above s v i ns @ [t])"
    "chain s i h (below s v i ns) (Node r)"
    "read_next s (Node p) i = Inr (Node r, False)"
    "above s v i ns = [] \<or> chain s i (hd (above s v i ns)) (tl (above s v i ns)) (Node t)"
proof -
  define A where "A = below s v i ns"
  define B where "B = above s v i ns"
  have "chain s i h (lev s i ns) (Node t)" using ln i by (simp add: links_def)
  then have ch: "chain s i h (A @ B) (Node t)"
    using lev_split[OF sk, of i v] by (simp add: A_def B_def)
  have chA: "chain s i h A (Node (hd (B @ [t])))"
    using ch by (cases B) (auto simp: chain_append)
  have chB: "B = [] \<or> chain s i (hd B) (tl B) (Node t)"
    using ch by (cases B) (auto simp: chain_append)
  show ?thesis
    using that[of "last (h # A)" "hd (B @ [t])"] chA chB chain_last[OF chA]
    by (simp add: pred_at_def succ_at_def A_def B_def)
qed

lemma sorted_insert_mid:
  fixes f :: "'a \<Rightarrow> int"
  assumes "sorted_wrt (<) (map f xs)" and "\<forall>a \<in> set xs. f a \<noteq> v" and "f n = v"
  shows "sorted_wrt (<) (map f (filter (\<lambda>a. f a < v) xs @ [n] @ filter (\<lambda>a. \<not> f a < v) xs))"
proof -
  let ?A = "filter (\<lambda>a. f a < v) xs" and ?B = "filter (\<lambda>a. \<not> f a < v) xs"
  have "sorted_wrt (\<lambda>a b. f a < f b) xs" using assms(1) by (simp add: sorted_wrt_map)
  moreover have "xs = ?A @ ?B" by (rule sorted_partition[OF assms(1)])
  ultimately have "sorted_wrt (\<lambda>a b. f a < f b) (?A @ ?B)" by simp
  then have a: "sorted_wrt (\<lambda>a b. f a < f b) ?A" "sorted_wrt (\<lambda>a b. f a < f b) ?B"
    "\<forall>x \<in> set ?A. \<forall>y \<in> set ?B. f x < f y"
    by (auto simp: sorted_wrt_append)
  have "\<forall>y \<in> set ?B. v < f y" using assms(2) by auto
  then have "sorted_wrt (\<lambda>a b. f a < f b) (?A @ [n] @ ?B)"
    using a assms(3) by (auto simp: sorted_wrt_append)
  then show ?thesis by (simp only: sorted_wrt_map)
qed

lemma succ_at_props:
  assumes sk: "skel s h t xs" and v: "v < VAL_MAX" and no: "\<forall>a \<in> set xs. nval s a \<noteq> v"
  obtains r where "succ_at s t v xs i = Node r" "alloc s r" "nval s r \<noteq> v" "r = t \<or> r \<in> set xs"
proof -
  define r where "r = hd (above s v i xs @ [t])"
  have "r = t \<or> r \<in> set (above s v i xs)" unfolding r_def by (cases "above s v i xs") auto
  then have c: "r = t \<or> r \<in> set xs" by (auto simp: above_props)
  then have "alloc s r" "nval s r \<noteq> v" using sk v no by (auto simp: skel_def)
  then show ?thesis using that[of r] c by (simp add: succ_at_def r_def)
qed

lemma pred_at_props:
  assumes sk: "skel s h t xs"
  obtains p where "pred_at s h v xs i = Node p" "alloc s p" "p = h \<or> p \<in> set xs"
proof -
  obtain p where p: "pred_at s h v xs i = Node p" by (simp add: pred_at_def)
  from pred_at_cases[OF p] have c: "p = h \<or> p \<in> set xs" by auto
  then have "alloc s p" using sk by (auto simp: skel_def)
  then show ?thesis using that[of p] p c by simp
qed

text \<open>One predecessor is made to refer to the new node.\<close>

lemma link_cas:
  assumes g: "good s h t xs" and v: "v < VAL_MAX" and no: "\<forall>a \<in> set xs. nval s a \<noteq> v"
    and n: "n \<notin> set xs" "n \<noteq> h" "n \<noteq> t"
    and lk: "linked s sk n lvl (pred_at s h v xs) (succ_at s t v xs) k"
    and k: "k < lvl" "lvl \<le> levelmax s"
  shows "\<exists>s'. cas_next sk (pred_at s h v xs k) k (succ_at s t v xs k, False) (Node n, False) = Inr (True, s') \<and>
      linked s s' n lvl (pred_at s h v xs) (succ_at s t v xs) (Suc k)"
proof -
  from g have sk: "skel s h t xs" and ln: "links s h t xs" by (simp_all add: good_def)
  have kl: "k < levelmax s" using k by simp
  from level_neighbours[OF sk ln kl, of v] obtain p r where
    pr: "pred_at s h v xs k = Node p" "succ_at s t v xs k = Node r"
    and rp: "read_next s (Node p) k = Inr (Node r, False)"
    by metis
  from pred_at_cases[OF pr(1)] have pn: "p \<noteq> n" using n by auto
  from lk have sn: "same_nodes s sk" and sd: "seed sk = seed s"
    and rd: "\<And>x j. read_next sk x j =
        (if x = Node n \<and> j < lvl then Inr (succ_at s t v xs j, False)
         else if j < k \<and> x = pred_at s h v xs j then Inr (Node n, False)
         else read_next s x j)"
    by (simp_all add: linked_def)
  have "read_next sk (Node p) k = Inr (Node r, False)" using rd pn rp by simp
  from cas_next_hit[OF this, of "(Node n, False)"] obtain s' where
    c: "cas_next sk (Node p) k (Node r, False) (Node n, False) = Inr (True, s')"
    and sn': "same_nodes sk s'" and sd': "seed s' = seed sk"
    and rd': "\<And>x j. read_next s' x j = (if x = Node p \<and> j = k then Inr (Node n, False) else read_next sk x j)"
    by blast
  have "linked s s' n lvl (pred_at s h v xs) (succ_at s t v xs) (Suc k)"
    unfolding linked_def
  proof (intro conjI allI)
    show "same_nodes s s'" by (rule same_nodes_trans[OF sn sn'])
    show "seed s' = seed s" using sd sd' by simp
    fix x j
    show "read_next s' x j =
        (if x = Node n \<and> j < lvl then Inr (succ_at s t v xs j, False)
         else if j < Suc k \<and> x = pred_at s h v xs j then Inr (Node n, False)
         else read_next s x j)"
      using rd'[of x j] rd[of x j] pn pr(1) by (auto simp: less_Suc_eq)
  qed
  then show ?thesis using c pr by auto
qed

lemma link_level_ok:
  assumes g: "good s h t xs" and v: "v < VAL_MAX" and no: "\<forall>a \<in> set xs. nval s a \<noteq> v"
    and n: "n \<notin> set xs" "n \<noteq> h" "n \<noteq> t"
    and lk: "linked s sk n lvl (pred_at s h v xs) (succ_at s t v xs) k"
    and k: "k < lvl" "lvl \<le> levelmax s"
    and arrs: "arr_get preds k = Inr (pred_at s h v xs k)" "arr_get succs k = Inr (succ_at s t v xs k)"
  shows "\<exists>s'. link_level sk v est tbl table_size (Node n) k preds succs = Some (Inr (s', preds, succs)) \<and>
      linked s s' n lvl (pred_at s h v xs) (succ_at s t v xs) (Suc k)"
proof -
  from g have sk: "skel s h t xs" by (simp add: good_def)
  from lk have sn: "same_nodes s sk"
    and rd: "\<And>x j. read_next sk x j =
        (if x = Node n \<and> j < lvl then Inr (succ_at s t v xs j, False)
         else if j < k \<and> x = pred_at s h v xs j then Inr (Node n, False)
         else read_next s x j)"
    by (simp_all add: linked_def)
  from succ_at_props[OF sk v no, of k] obtain r where
    r: "succ_at s t v xs k = Node r" "alloc s r" "nval s r \<noteq> v" by metis
  have "alloc sk r" using r(2) sn by (simp add: same_nodes_obs)
  from deref_alloc[OF this] obtain rn where rn: "deref sk (Node r) = Inr rn" "val rn = nval s r"
    using sn by (auto simp: same_nodes_obs)
  have nn: "read_next sk (Node n) k = Inr (Node r, False)" using rd k r by simp
  from link_cas[OF g v no n lk k] obtain s' where
    c: "cas_next sk (pred_at s h v xs k) k (Node r, False) (Node n, False) = Inr (True, s')"
    and lk': "linked s s' n lvl (pred_at s h v xs) (succ_at s t v xs) (Suc k)"
    using r by auto
  have "link_level sk v est tbl table_size (Node n) k preds succs = Some (Inr (s', preds, succs))"
    by (subst link_level.simps) (simp add: arrs r nn rn c)
  then show ?thesis using lk' by blast
qed

lemma link_upper_ok:
  assumes g: "good s h t xs" and v: "v < VAL_MAX" and no: "\<forall>a \<in> set xs. nval s a \<noteq> v"
    and n: "n \<notin> set xs" "n \<noteq> h" "n \<noteq> t"
    and lvl: "lvl \<le> levelmax s"
    and arrs: "\<forall>i < lvl. arr_get preds i = Inr (pred_at s h v xs i) \<and> arr_get succs i = Inr (succ_at s t v xs i)"
  shows "m = lvl - k \<Longrightarrow> k \<le> lvl \<Longrightarrow> linked s sk n lvl (pred_at s h v xs) (succ_at s t v xs) k \<Longrightarrow>
     \<exists>s'. link_upper sk v est tbl table_size (Node n) [k..<lvl] preds succs = Some (Inr (s', preds, succs)) \<and>
        linked s s' n lvl (pred_at s h v xs) (succ_at s t v xs) lvl"
proof (induction m arbitrary: k sk)
  case 0
  then have "k = lvl" by simp
  then show ?case using 0 by simp
next
  case (Suc m)
  then have k: "k < lvl" by simp
  from link_level_ok[OF g v no n Suc.prems(3) k lvl] arrs k obtain s1 where
    l1: "link_level sk v est tbl table_size (Node n) k preds succs = Some (Inr (s1, preds, succs))"
    and lk1: "linked s s1 n lvl (pred_at s h v xs) (succ_at s t v xs) (Suc k)"
    by blast
  have m: "m = lvl - Suc k" "Suc k \<le> lvl" using Suc.prems(1) k by simp_all
  from Suc.IH[OF m lk1] obtain s' where
    r: "link_upper s1 v est tbl table_size (Node n) [Suc k..<lvl] preds succs = Some (Inr (s', preds, succs))"
    and lk': "linked s s' n lvl (pred_at s h v xs) (succ_at s t v xs) lvl"
    by blast
  have "[k..<lvl] = k # [Suc k..<lvl]" using k by (simp add: upt_conv_Cons)
  then show ?case using l1 r lk' by simp
qed

lemma skel_ins_node:
  assumes sk: "skel s h t xs" and v: "v < VAL_MAX" and no: "\<forall>a \<in> set xs. nval s a \<noteq> v"
    and n: "alloc s n" "n \<notin> set xs" "n \<noteq> h" "n \<noteq> t" "nval s n = v" "0 < ntop s n"
      "ntop s n \<le> levelmax s" "nslots s n = ntop s n"
  shows "skel s h t (ins_node s v n xs)"
proof -
  have srt: "sorted_wrt (<) (map (nval s) xs)" using sk by (simp add: skel_def)
  have "sorted_wrt (<) (map (nval s) (ins_node s v n xs))"
    unfolding ins_node_def by (rule sorted_insert_mid[OF srt no n(5)])
  moreover have "distinct (ins_node s v n xs)"
    using sk n(2) by (auto simp: ins_node_def skel_def)
  moreover have "set (ins_node s v n xs) = insert n (set xs)"
    by (auto simp: ins_node_def)
  ultimately show ?thesis
    using sk n v unfolding skel_def by auto
qed

lemma lev_ins_node:
  "lev s i (ins_node s v n xs) = below s v i xs @ (if i < ntop s n then [n] else []) @ above s v i xs"
  by (simp add: lev_def ins_node_def below_def above_def conj_commute)

lemma linked_good:
  assumes g: "good s h t xs" and v: "v < VAL_MAX" and no: "\<forall>a \<in> set xs. nval s a \<noteq> v"
    and n: "alloc s n" "n \<notin> set xs" "n \<noteq> h" "n \<noteq> t" "nval s n = v" "0 < ntop s n"
      "ntop s n \<le> levelmax s" "nslots s n = ntop s n"
    and lk: "linked s s' n (ntop s n) (pred_at s h v xs) (succ_at s t v xs) (ntop s n)"
  shows "good s' h t (ins_node s v n xs)"
proof -
  from g have sk: "skel s h t xs" and ln: "links s h t xs" by (simp_all add: good_def)
  from lk have sn: "same_nodes s s'"
    and rd: "\<And>x j. read_next s' x j =
        (if x = Node n \<and> j < ntop s n then Inr (succ_at s t v xs j, False)
         else if j < ntop s n \<and> x = pred_at s h v xs j then Inr (Node n, False)
         else read_next s x j)"
    by (simp_all add: linked_def)
  have sk': "skel s' h t (ins_node s v n xs)"
    by (rule skel_same_nodes[OF sn skel_ins_node[OF sk v no n]])
  have "links s' h t (ins_node s v n xs)"
    unfolding links_def
  proof (intro allI impI conjI)
    fix i assume "i < levelmax s'"
    then have i: "i < levelmax s" using sn by (simp add: same_nodes_obs)
    from level_neighbours[OF sk ln i, of v] obtain p r where
      pr: "pred_at s h v xs i = Node p" "succ_at s t v xs i = Node r"
      and p: "p = last (h # below s v i xs)" and r: "r = hd (above s v i xs @ [t])"
      and chA: "chain s i h (below s v i xs) (Node r)"
      and chB: "above s v i xs = [] \<or> chain s i (hd (above s v i xs)) (tl (above s v i xs)) (Node t)"
      by metis
    have dist: "distinct (h # below s v i xs @ above s v i xs @ [t])" by (rule distinct_level[OF sk])
    have nA: "n \<notin> set (h # below s v i xs)" "n \<notin> set (above s v i xs)"
      using n by (auto simp: below_props above_props)
    from pred_at_cases[OF pr(1)] have pt: "p \<noteq> t" "p \<noteq> n" using sk n by (auto simp: skel_def)
    show "read_next s' (Node t) i = Inr (Null, False)"
      using rd[of "Node t" i] n pr pt ln i by (simp add: links_def)
    show "chain s' i h (lev s' i (ins_node s v n xs)) (Node t)"
    proof (cases "i < ntop s n")
      case False
      have "chain s i h (lev s i xs) (Node t)" using ln i by (simp add: links_def)
      moreover have "\<forall>x \<in> set (h # lev s i xs). read_next s' (Node x) i = read_next s (Node x) i"
        using rd False by simp
      ultimately have "chain s' i h (lev s i xs) (Node t)" by (rule chain_cong)
      moreover have "lev s' i (ins_node s v n xs) = lev s i xs"
        using False sn lev_split[OF sk, of i v] by (simp add: lev_ins_node same_nodes_obs)
      ultimately show ?thesis by simp
    next
      case True
      have c1: "chain s' i h (below s v i xs) (Node n)"
      proof (rule chain_relink[OF chA])
        show "distinct (h # below s v i xs)" using dist by simp
        show "read_next s' (Node (last (h # below s v i xs))) i = Inr (Node n, False)"
          using rd[of "Node p" i] True pt pr p by simp
        show "\<forall>x \<in> set (h # below s v i xs). x \<noteq> last (h # below s v i xs) \<longrightarrow>
                read_next s' (Node x) i = read_next s (Node x) i"
        proof (intro ballI impI)
          fix x assume x: "x \<in> set (h # below s v i xs)" "x \<noteq> last (h # below s v i xs)"
          then have "x \<noteq> n" "Node x \<noteq> pred_at s h v xs i" using nA pr p by auto
          then show "read_next s' (Node x) i = read_next s (Node x) i" using rd[of "Node x" i] by simp
        qed
      qed
      have c2: "chain s' i n (above s v i xs) (Node t)"
      proof (cases "above s v i xs")
        case Nil
        then show ?thesis using rd[of "Node n" i] True pr r by simp
      next
        case (Cons b bs)
        then have "chain s i b bs (Node t)" using chB by simp
        moreover have "\<forall>x \<in> set (b # bs). read_next s' (Node x) i = read_next s (Node x) i"
        proof
          fix x assume x: "x \<in> set (b # bs)"
          then have "x \<noteq> n" using nA Cons by auto
          moreover have "x \<noteq> p" using x dist Cons p
            by (metis (no_types, lifting) UnCI distinct.simps(2) distinct_append disjoint_iff
                last_in_set list.discI list.set_intros(1) set_ConsD set_append)
          ultimately show "read_next s' (Node x) i = read_next s (Node x) i"
            using rd[of "Node x" i] pr by simp
        qed
        ultimately have "chain s' i b bs (Node t)" by (rule chain_cong)
        then show ?thesis using rd[of "Node n" i] True pr r Cons by simp
      qed
      have "lev s' i (ins_node s v n xs) = below s v i xs @ n # above s v i xs"
        using True sn by (simp add: lev_ins_node same_nodes_obs)
      then show ?thesis using c1 c2 by (simp add: chain_append)
    qed
  qed
  then show ?thesis using sk' by (simp add: good_def)
qed

text \<open>
  \<open>sl_add_retry\<close> when its search returns a quiescent list without the value \<open>v\<close>: the
  new node is linked on all its levels.
\<close>

lemma sl_add_retry_link:
  assumes fs: "fraser_search s0 v pa sa est tbl table_size =
      Some (Inr (s, arr_fill (levelmax s) (pred_at s h v xs) pa',
                 arr_fill (levelmax s) (succ_at s t v xs) sa'))"
    and arrs: "arr_ok (levelmax s) pa'" "pa' \<noteq> None" "arr_ok (levelmax s) sa'" "sa' \<noteq> None"
    and g: "good s h t xs" and v: "v < VAL_MAX" and no: "\<forall>a \<in> set xs. nval s a \<noteq> v"
    and n: "alloc s n" "n \<notin> set xs" "n \<noteq> h" "n \<noteq> t" "nval s n = v" "0 < ntop s n"
      "ntop s n \<le> levelmax s" "nslots s n = ntop s n"
  shows "\<exists>s'. sl_add_retry s0 est tbl table_size v n pa sa = Some (Inr (1, s')) \<and>
      good s' h t (ins_node s v n xs) \<and> same_nodes s s' \<and> seed s' = seed s \<and>
      (\<forall>x j. x \<noteq> Node n \<longrightarrow> (\<forall>i. x \<noteq> pred_at s h v xs i) \<longrightarrow> read_next s' x j = read_next s x j)"
proof -
  from g have sk: "skel s h t xs" by (simp add: good_def)
  let ?L = "levelmax s" and ?lvl = "ntop s n"
  let ?pr = "pred_at s h v xs" and ?su = "succ_at s t v xs"
  let ?preds = "arr_fill ?L ?pr pa'" and ?succs = "arr_fill ?L ?su sa'"
  have L: "0 < ?L" using sk by (simp add: skel_def)
  have ag: "\<And>i. i < ?L \<Longrightarrow> arr_get ?preds i = Inr (?pr i) \<and> arr_get ?succs i = Inr (?su i)"
    using arrs by (simp add: arr_get_fill)
  from succ_at_props[OF sk v no, of 0] obtain r0 where
    r0: "?su 0 = Node r0" "alloc s r0" "nval s r0 \<noteq> v" by metis
  from deref_alloc[OF r0(2)] obtain rn where rn: "deref s (Node r0) = Inr rn" "val rn = nval s r0" by blast
  from deref_alloc[OF n(1)] obtain nn where nn: "deref s (Node n) = Inr nn" "toplevel nn = ?lvl" by blast
  have "\<forall>i \<in> set [0..<?lvl]. i < nslots s n \<and> arr_get ?succs i = Inr (?su i)"
    using n ag by auto
  from copy_succs_ok[OF n(1) this] obtain s2 where
    cp: "copy_succs s (Node n) ?succs [0..<?lvl] = Inr s2" and sn2: "same_nodes s s2"
    and sd2: "seed s2 = seed s"
    and rd2: "\<forall>x j. read_next s2 x j =
         (if x = Node n \<and> j \<in> set [0..<?lvl] then Inr (?su j, False) else read_next s x j)"
    by blast
  have lk0: "linked s s2 n ?lvl ?pr ?su 0"
    using sn2 sd2 rd2 by (simp add: linked_def)
  from link_cas[OF g v no n(2,3,4) lk0 n(6,7)] obtain s3 where
    c0: "cas_next s2 (?pr 0) 0 (?su 0, False) (Node n, False) = Inr (True, s3)"
    and lk1: "linked s s3 n ?lvl ?pr ?su (Suc 0)"
    by blast
  have agl: "\<forall>i < ?lvl. arr_get ?preds i = Inr (?pr i) \<and> arr_get ?succs i = Inr (?su i)"
    using ag n(7) by auto
  from link_upper_ok[where m = "?lvl - 1" and k = "Suc 0" and sk = s3 and est = est and tbl = tbl
      and table_size = table_size, OF g v no n(2,3,4,7) agl _ _ lk1] n(6)
  obtain s4 where
    lu: "link_upper s3 v est tbl table_size (Node n) [Suc 0..<?lvl] ?preds ?succs =
           Some (Inr (s4, ?preds, ?succs))"
    and lk: "linked s s4 n ?lvl ?pr ?su ?lvl"
    by auto
  have res: "sl_add_retry s0 est tbl table_size v n pa sa = Some (Inr (1, s4))"
    by (subst sl_add_retry.simps) (simp add: fs ag[OF L] r0 rn nn cp c0[unfolded r0(1)] lu)
  have gd: "good s4 h t (ins_node s v n xs)"
    by (rule linked_good[OF g v no n lk])
  have "\<forall>x j. x \<noteq> Node n \<longrightarrow> (\<forall>i. x \<noteq> ?pr i) \<longrightarrow> read_next s4 x j = read_next s x j"
    using lk by (simp add: linked_def)
  then show ?thesis
    using res gd lk by (intro exI[of _ s4]) (simp add: linked_def)
qed

lemma ins_node_cong:
  "\<forall>a \<in> set xs. nval s' a = nval s a \<Longrightarrow> ins_node s' v n xs = ins_node s v n xs"
  unfolding ins_node_def by (simp cong: filter_cong)

lemma fresh_arrays:
  "arr_ok L (Some (replicate L None))" "Some (replicate L None) \<noteq> None"
  by (simp_all add: arr_ok_def)

text \<open>The three outcomes of \<open>sl_add\<close> on a quiescent list, with searches that start at the head.\<close>

lemma sl_add_absent:
  assumes g: "good s h t ns" and v: "v < VAL_MAX"
    and tbl: "head_table h t tbl" "0 \<le> bucket est table_size v" "bucket est table_size v < int (length tbl)"
    and no: "\<forall>a \<in> set ns. nval s a \<noteq> v"
  shows "\<exists>s'. sl_add s est tbl table_size v = Some (Inr (1, s')) \<and>
      good s' h t (ins_node s v (brk s) ns) \<and> brk s \<notin> set ns \<and>
      nval s' (brk s) = v \<and> ndel s' (brk s) = 0 \<and>
      (\<forall>a. a \<noteq> brk s \<longrightarrow> nval s' a = nval s a \<and> ndel s' a = ndel s a)"
proof -
  have L: "0 < levelmax s" using g by (simp add: good_def skel_def)
  from get_rand_level_range[OF L] obtain lvl where
    rl: "get_rand_level s = (lvl, s\<lparr>seed := xorshift (seed s)\<rparr>)" and lvl: "0 < lvl" "lvl \<le> levelmax s"
    by blast
  let ?s1 = "s\<lparr>seed := xorshift (seed s)\<rparr>"
  have g1: "good ?s1 h t ns"
    using g good_cong[of ?s1 s h t ns] by (simp add: seed_update_obs)
  define s2 where "s2 = snd (sl_new_simple_node ?s1 v lvl)"
  let ?n = "brk s"
  note al = new_simple_node_good[OF g1 s2_def, simplified]
  have nsn: "sl_new_simple_node ?s1 v lvl = (?n, s2)"
    using al(1) by (simp add: s2_def prod_eq_iff)
  have g2: "good s2 h t ns" by (rule al(2))
  then have sk2: "skel s2 h t ns" and ln2: "links s2 h t ns" by (simp_all add: good_def)
  have lm2: "levelmax s2 = levelmax s" using al(11) by simp
  have obs: "\<And>a. a \<noteq> ?n \<Longrightarrow> nval s2 a = nval s a \<and> ndel s2 a = ndel s a \<and> ntop s2 a = ntop s a"
    using al(14) by (simp add: seed_update_obs)
  have nin: "?n \<notin> set ns" "?n \<noteq> h" "?n \<noteq> t" using al(8,9,10) by auto
  have no2: "\<forall>a \<in> set ns. nval s2 a \<noteq> v"
    using no obs nin by (metis)
  let ?arr = "Some (replicate (levelmax s2) None)"
  from fraser_search_ok[where M = "{}" and pa = ?arr and sa = ?arr, OF sk2 v _ links_part_links[OF ln2] tbl]
  have fs: "fraser_search s2 v ?arr ?arr est tbl table_size =
      Some (Inr (s2, arr_fill (levelmax s2) (pred_at s2 h v ns) ?arr,
                 arr_fill (levelmax s2) (succ_at s2 t v ns) ?arr))"
    by (auto simp: arr_ok_def)
  have n2: "alloc s2 ?n" "nval s2 ?n = v" "0 < ntop s2 ?n" "ntop s2 ?n \<le> levelmax s2"
    "nslots s2 ?n = ntop s2 ?n" "ndel s2 ?n = 0"
    using al(3,4,5,6,7) lvl lm2 by simp_all
  from sl_add_retry_link[OF fs fresh_arrays fresh_arrays g2 v no2 n2(1) nin n2(2,3,4,5)]
  obtain s' where
    r: "sl_add_retry s2 est tbl table_size v ?n ?arr ?arr = Some (Inr (1, s'))"
    and gd: "good s' h t (ins_node s2 v ?n ns)" and sn: "same_nodes s2 s'"
    by blast
  have "ins_node s2 v ?n ns = ins_node s v ?n ns"
    by (rule ins_node_cong) (use obs nin in metis)
  moreover have "sl_add s est tbl table_size v = Some (Inr (1, s'))"
    unfolding sl_add_def using rl nsn r by simp
  moreover have "\<forall>a. a \<noteq> ?n \<longrightarrow> nval s' a = nval s a \<and> ndel s' a = ndel s a"
    using sn obs by (simp add: same_nodes_obs)
  moreover have "nval s' ?n = v" "ndel s' ?n = 0" using sn n2 by (simp_all add: same_nodes_obs)
  ultimately show ?thesis using gd nin by (intro exI[of _ s']) simp
qed

lemma sl_add_present:
  assumes g: "good s h t ns" and v: "v < VAL_MAX"
    and tbl: "head_table h t tbl" "0 \<le> bucket est table_size v" "bucket est table_size v < int (length tbl)"
    and d: "d \<in> set ns" "nval s d = v" "ndel s d = 0"
  shows "sl_add s est tbl table_size v =
         Some (Inr (0, s\<lparr>seed := xorshift (seed s), brk := Suc (brk s)\<rparr>))"
proof -
  have L: "0 < levelmax s" and fresh: "\<not> alloc s (brk s)" using g by (auto simp: good_def skel_def)
  from get_rand_level_range[OF L] obtain lvl where
    rl: "get_rand_level s = (lvl, s\<lparr>seed := xorshift (seed s)\<rparr>)" and lvl: "0 < lvl" "lvl \<le> levelmax s"
    by blast
  let ?s1 = "s\<lparr>seed := xorshift (seed s)\<rparr>"
  have g1: "good ?s1 h t ns"
    using g good_cong[of ?s1 s h t ns] by (simp add: seed_update_obs)
  define s2 where "s2 = snd (sl_new_simple_node ?s1 v lvl)"
  let ?n = "brk s"
  note al = new_simple_node_good[OF g1 s2_def, simplified]
  have nsn: "sl_new_simple_node ?s1 v lvl = (?n, s2)"
    using al(1) by (simp add: s2_def prod_eq_iff)
  have g2: "good s2 h t ns" by (rule al(2))
  then have sk2: "skel s2 h t ns" and ln2: "links s2 h t ns" by (simp_all add: good_def)
  have lm2: "levelmax s2 = levelmax s" using al(11) by simp
  have dn: "d \<noteq> ?n" using al(8) d(1) by auto
  have d2: "nval s2 d = v" "ndel s2 d = 0"
    using al(14)[OF dn] d by (simp_all add: seed_update_obs)
  let ?arr = "Some (replicate (levelmax s2) None)"
  from fraser_search_ok[where M = "{}" and pa = ?arr and sa = ?arr, OF sk2 v _ links_part_links[OF ln2] tbl]
  have fs: "fraser_search s2 v ?arr ?arr est tbl table_size =
      Some (Inr (s2, arr_fill (levelmax s2) (pred_at s2 h v ns) ?arr,
                 arr_fill (levelmax s2) (succ_at s2 t v ns) ?arr))"
    by (auto simp: arr_ok_def)
  from succ0_member[OF sk2 v] obtain r where r: "succ_at s2 t v ns 0 = Node r" "alloc s2 r"
    "nval s2 r = v \<longleftrightarrow> (\<exists>a \<in> set ns. nval s2 a = v)" "nval s2 r = v \<longrightarrow> r \<in> set ns"
    by blast
  have rd: "r = d" using r(3,4) d(1) d2 value_unique[OF sk2, of r d] by auto
  from deref_alloc[OF r(2)] obtain n where n: "deref s2 (Node d) = Inr n" "val n = v" "deleted n = 0"
    using rd d2 by auto
  have ag: "arr_get (arr_fill (levelmax s2) (succ_at s2 t v ns) ?arr) 0 = Inr (Node d)"
    using arr_get_fresh_fill[of 0 "levelmax s2" "succ_at s2 t v ns"] L lm2 r(1) rd by simp
  have "sl_add_retry s2 est tbl table_size v ?n ?arr ?arr = Some (Inr (0, sl_delete_node s2 ?n))"
    by (subst sl_add_retry.simps) (simp add: fs ag n)
  moreover have "sl_delete_node s2 ?n = s\<lparr>seed := xorshift (seed s), brk := Suc (brk s)\<rparr>"
  proof -
    have "heap s (brk s) = None" using fresh by (simp add: alloc_def)
    then have "(heap s)(brk s := None) = heap s" by (simp add: fun_upd_idem)
    then show ?thesis
      by (simp add: sl_delete_node_def s2_def sl_new_simple_node_def)
  qed
  ultimately show ?thesis
    unfolding sl_add_def using rl nsn by simp
qed

text \<open>
  \<open>sl_add\<close> of a value whose node \<open>d\<close> is on the list with its \<open>deleted\<close> flag set: the
  node is marked and unlinked, and a new node takes its place.
\<close>

lemma sl_add_deleted:
  assumes g: "good s h t ns" and v: "v < VAL_MAX"
    and tbl: "head_table h t tbl" "0 \<le> bucket est table_size v" "bucket est table_size v < int (length tbl)"
    and d: "d \<in> set ns" "nval s d = v" "ndel s d \<noteq> 0"
  shows "\<exists>s'. sl_add s est tbl table_size v = Some (Inr (1, s')) \<and>
      good s' h t (ins_node s v (brk s) (filter (\<lambda>a. a \<notin> {d}) ns)) \<and>
      brk s \<noteq> d \<and> \<not> alloc s (brk s) \<and> alloc s' (brk s) \<and> nval s' (brk s) = v \<and> ndel s' (brk s) = 0 \<and>
      alloc s' d \<and> ndel s' d = ndel s d \<and> nval s' d = v \<and>
      (\<forall>j < ntop s d. \<exists>q. read_next s' (Node d) j = Inr (q, True)) \<and>
      (\<forall>a. a \<noteq> brk s \<longrightarrow> nval s' a = nval s a \<and> ndel s' a = ndel s a)"
proof -
  have L: "0 < levelmax s" and fresh: "\<not> alloc s (brk s)" using g by (auto simp: good_def skel_def)
  from get_rand_level_range[OF L] obtain lvl where
    rl: "get_rand_level s = (lvl, s\<lparr>seed := xorshift (seed s)\<rparr>)" and lvl: "0 < lvl" "lvl \<le> levelmax s"
    by blast
  let ?s1 = "s\<lparr>seed := xorshift (seed s)\<rparr>"
  have g1: "good ?s1 h t ns"
    using g good_cong[of ?s1 s h t ns] by (simp add: seed_update_obs)
  define s2 where "s2 = snd (sl_new_simple_node ?s1 v lvl)"
  let ?n = "brk s"
  let ?ns' = "filter (\<lambda>a. a \<notin> {d}) ns"
  note al = new_simple_node_good[OF g1 s2_def, simplified]
  have nsn: "sl_new_simple_node ?s1 v lvl = (?n, s2)"
    using al(1) by (simp add: s2_def prod_eq_iff)
  have g2: "good s2 h t ns" by (rule al(2))
  then have sk2: "skel s2 h t ns" and ln2: "links s2 h t ns" by (simp_all add: good_def)
  have lm2: "levelmax s2 = levelmax s" using al(11) by simp
  have nin: "?n \<notin> set ns" "?n \<noteq> h" "?n \<noteq> t" using al(8,9,10) by auto
  have dn: "d \<noteq> ?n" using nin d(1) by auto
  have obs: "\<And>a. a \<noteq> ?n \<Longrightarrow> alloc s2 a = alloc s a \<and> nval s2 a = nval s a \<and> ndel s2 a = ndel s a \<and>
      ntop s2 a = ntop s a"
    using al(14) by (simp add: seed_update_obs)
  have d2: "nval s2 d = v" "ndel s2 d \<noteq> 0" "ntop s2 d = ntop s d"
    using obs[OF dn] d by simp_all
  have n2: "alloc s2 ?n" "nval s2 ?n = v" "0 < ntop s2 ?n" "ntop s2 ?n \<le> levelmax s2"
    "nslots s2 ?n = ntop s2 ?n" "ndel s2 ?n = 0"
    using al(3,4,5,6,7) lvl lm2 by simp_all
  let ?arr = "Some (replicate (levelmax s2) None)"
  \<comment> \<open>first search: finds \<open>d\<close>\<close>
  from fraser_search_ok[where M = "{}" and pa = ?arr and sa = ?arr, OF sk2 v _ links_part_links[OF ln2] tbl]
  have fs: "fraser_search s2 v ?arr ?arr est tbl table_size =
      Some (Inr (s2, arr_fill (levelmax s2) (pred_at s2 h v ns) ?arr,
                 arr_fill (levelmax s2) (succ_at s2 t v ns) ?arr))"
    by (auto simp: arr_ok_def)
  let ?pa = "arr_fill (levelmax s2) (pred_at s2 h v ns) ?arr"
  let ?sa = "arr_fill (levelmax s2) (succ_at s2 t v ns) ?arr"
  from succ0_member[OF sk2 v] obtain r where r: "succ_at s2 t v ns 0 = Node r" "alloc s2 r"
    "nval s2 r = v \<longleftrightarrow> (\<exists>a \<in> set ns. nval s2 a = v)" "nval s2 r = v \<longrightarrow> r \<in> set ns"
    by blast
  have rd: "r = d" using r(3,4) d(1) d2 value_unique[OF sk2, of r d] by auto
  from deref_alloc[OF r(2)] obtain dnode where dnode: "deref s2 (Node d) = Inr dnode" "val dnode = v"
    "deleted dnode \<noteq> 0"
    using rd d2 by auto
  have ag: "arr_get ?sa 0 = Inr (Node d)"
    using arr_get_fresh_fill[of 0 "levelmax s2" "succ_at s2 t v ns"] L lm2 r(1) rd by simp
  \<comment> \<open>marking\<close>
  from mark_node_ptrs_ok[OF sk2 ln2 d(1)] obtain s3 where
    mk: "mark_node_ptrs s2 (Node d) = Some (Inr s3)" and sn3: "same_nodes s2 s3"
    and pl3: "part_links s3 h t ns {d} (levelmax s3)"
    and mk3: "\<forall>j < ntop s2 d. \<exists>q. read_next s3 (Node d) j = Inr (q, True)"
    by blast
  have step1: "sl_add_retry s2 est tbl table_size v ?n ?arr ?arr =
               sl_add_retry s3 est tbl table_size v ?n ?pa ?sa"
    by (subst sl_add_retry.simps) (simp add: fs ag dnode mk)
  \<comment> \<open>second search: unlinks \<open>d\<close>\<close>
  have sk3: "skel s3 h t ns" by (rule skel_same_nodes[OF sn3 sk2])
  have lm3: "levelmax s3 = levelmax s2" using sn3 by (simp add: same_nodes_obs)
  have M3: "{d} = {} \<or> ({d} = {d} \<and> d \<in> set ns \<and> nval s3 d = v)"
    using d d2 sn3 by (simp add: same_nodes_obs)
  have ok3: "arr_ok (levelmax s3) ?pa" "arr_ok (levelmax s3) ?sa"
    by (simp_all add: lm3 fresh_arrays)
  from fraser_search_ok[OF sk3 v M3 pl3 tbl ok3] obtain s4 where
    fs4: "fraser_search s3 v ?pa ?sa est tbl table_size =
          Some (Inr (s4, arr_fill (levelmax s3) (pred_at s3 h v ns) ?pa,
                     arr_fill (levelmax s3) (succ_at s3 t v ?ns') ?sa))"
    and sn4: "same_nodes s3 s4"
    and ln4: "links s4 h t ?ns'"
    and rd4: "\<forall>j. read_next s4 (Node d) j = read_next s3 (Node d) j"
    by blast
  have sn24: "same_nodes s2 s4" by (rule same_nodes_trans[OF sn3 sn4])
  have g4: "good s4 h t ?ns'"
    using skel_filter[OF skel_same_nodes[OF sn24 sk2]] ln4 by (simp add: good_def)
  have lm4: "levelmax s4 = levelmax s3" using sn4 by (simp add: same_nodes_obs)
  have pe: "pred_at s3 h v ns = pred_at s4 h v ?ns'"
    using sn4 d2 sn3 below_filter[of s4 d v _ ns]
    by (simp add: fun_eq_iff pred_at_def same_nodes_obs)
  have se: "succ_at s3 t v ?ns' = succ_at s4 t v ?ns'"
    using sn4 by (simp add: same_nodes_obs)
  have fs4': "fraser_search s3 v ?pa ?sa est tbl table_size =
          Some (Inr (s4, arr_fill (levelmax s4) (pred_at s4 h v ?ns') ?pa,
                     arr_fill (levelmax s4) (succ_at s4 t v ?ns') ?sa))"
    using fs4 pe se lm4 by simp
  have no4: "\<forall>a \<in> set ?ns'. nval s4 a \<noteq> v"
  proof
    fix a assume a: "a \<in> set ?ns'"
    then have "a \<in> set ns" "a \<noteq> d" by auto
    then have "nval s2 a \<noteq> v" using value_unique[OF sk2 _ d(1), of a] d2 by auto
    then show "nval s4 a \<noteq> v" using sn24 by (simp add: same_nodes_obs)
  qed
  have n4: "alloc s4 ?n" "?n \<notin> set ?ns'" "?n \<noteq> h" "?n \<noteq> t" "nval s4 ?n = v" "0 < ntop s4 ?n"
    "ntop s4 ?n \<le> levelmax s4" "nslots s4 ?n = ntop s4 ?n"
    using n2 nin sn24 by (simp_all add: same_nodes_obs)
  have ok4: "arr_ok (levelmax s4) ?pa" "?pa \<noteq> None" "arr_ok (levelmax s4) ?sa" "?sa \<noteq> None"
    by (simp_all add: lm3 lm4 fresh_arrays) (simp_all add: arr_fill_def)
  from sl_add_retry_link[OF fs4' ok4 g4 v no4 n4] obtain s' where
    r': "sl_add_retry s3 est tbl table_size v ?n ?pa ?sa = Some (Inr (1, s'))"
    and gd: "good s' h t (ins_node s4 v ?n ?ns')" and sn': "same_nodes s4 s'"
    and rd': "\<forall>x j. x \<noteq> Node ?n \<longrightarrow> (\<forall>i. x \<noteq> pred_at s4 h v ?ns' i) \<longrightarrow> read_next s' x j = read_next s4 x j"
    by blast
  have sn2': "same_nodes s2 s'" by (rule same_nodes_trans[OF sn24 sn'])
  have res: "sl_add s est tbl table_size v = Some (Inr (1, s'))"
    unfolding sl_add_def using rl nsn step1 r' by simp
  have ie: "ins_node s4 v ?n ?ns' = ins_node s v ?n ?ns'"
  proof (rule ins_node_cong, rule ballI)
    fix a assume "a \<in> set ?ns'"
    then have "a \<noteq> ?n" using nin by auto
    then show "nval s4 a = nval s a" using obs sn24 by (simp add: same_nodes_obs)
  qed
  have dnotpred: "\<forall>i. Node d \<noteq> pred_at s4 h v ?ns' i"
  proof
    fix i
    obtain p where p: "pred_at s4 h v ?ns' i = Node p" by (simp add: pred_at_def)
    from pred_at_cases[OF p] have "p = h \<or> p \<in> set ?ns'" by auto
    then have "p \<noteq> d" using sk2 d(1) by (auto simp: skel_def)
    then show "Node d \<noteq> pred_at s4 h v ?ns' i" using p by simp
  qed
  have dm: "\<forall>j < ntop s d. \<exists>q. read_next s' (Node d) j = Inr (q, True)"
    using rd' dnotpred dn rd4 mk3 d2 by simp
  have o': "\<forall>a. a \<noteq> ?n \<longrightarrow> nval s' a = nval s a \<and> ndel s' a = ndel s a"
    using obs sn2' by (simp add: same_nodes_obs)
  have "alloc s' d" using obs[OF dn] sn2' g d(1) by (simp add: same_nodes_obs good_def skel_def)
  moreover have "alloc s' ?n" "nval s' ?n = v" "ndel s' ?n = 0"
    using n2 sn2' by (simp_all add: same_nodes_obs)
  ultimately show ?thesis
    using res gd ie dn fresh dm o' d by (intro exI[of _ s']) simp
qed

section \<open>Runs from a new set\<close>

lemma set_new_good:
  assumes L: "0 < levelmax w" and fr: "\<forall>a. alloc w a \<longrightarrow> a < brk w"
  shows "\<exists>s0. sl_set_new w = Inr (Suc (brk w), s0) \<and> good s0 (Suc (brk w)) (brk w) []"
proof -
  let ?b = "brk w" and ?L = "levelmax w"
  let ?tn = "\<lparr>val = VAL_MAX, toplevel = ?L, deleted = 0, nexts = replicate ?L (Some (Null, False))\<rparr>"
  let ?hn = "\<lparr>val = VAL_MIN, toplevel = ?L, deleted = 0, nexts = replicate ?L (Some (Node ?b, False))\<rparr>"
  let ?s0 = "w\<lparr>heap := (heap w)(?b \<mapsto> ?tn, Suc ?b \<mapsto> ?hn), brk := Suc (Suc ?b)\<rparr>"
  have eq: "sl_set_new w = Inr (Suc ?b, ?s0)" by (rule sl_set_new_eq)
  have hp: "heap ?s0 ?b = Some ?tn" "heap ?s0 (Suc ?b) = Some ?hn" by simp_all
  have al: "\<forall>a. alloc ?s0 a \<longrightarrow> a < brk ?s0"
  proof (intro allI impI)
    fix a assume a: "alloc ?s0 a"
    show "a < brk ?s0"
    proof (cases "a = ?b \<or> a = Suc ?b")
      case True then show ?thesis by auto
    next
      case False
      then have "alloc w a" using a by (simp add: alloc_def)
      then show ?thesis using fr by (simp add: less_Suc_eq)
    qed
  qed
  have sk: "skel ?s0 (Suc ?b) ?b []"
    unfolding skel_def using L al
    by (simp add: alloc_def ntop_def nslots_def nval_def)
  have ln: "links ?s0 (Suc ?b) ?b []"
    unfolding links_def by (simp add: lev_def read_next_def deref_def)
  show ?thesis using eq sk ln by (simp add: good_def)
qed

lemma ref_fill_head_table:
  assumes "length tbl = T" and "node (tbl ! 0) = h" and "count (tbl ! 0) \<noteq> 0"
    and "\<forall>i. 0 < i \<and> i < T \<longrightarrow>
           (count (tbl ! i) \<noteq> 0 \<and> node (tbl ! i) = t) \<or> (count (tbl ! i) = 0 \<and> i < n \<and> Suc i < T)"
    and "n \<le> T"
  shows "node (ref_fill tbl n ! 0) = h \<and> (\<forall>i. 0 < i \<and> i < T \<longrightarrow> node (ref_fill tbl n ! i) = t)"
  using assms
proof (induction n arbitrary: tbl)
  case 0
  then show ?case by auto
next
  case (Suc j)
  have jT: "j < T" using Suc.prems(5) by simp
  show ?case
  proof (cases "count (tbl ! j) = 0")
    case True
    then have j0: "0 < j" using Suc.prems(3) by (cases j) auto
    with True Suc.prems(4) jT have sj: "Suc j < T" by auto
    with Suc.prems(4) have nx: "count (tbl ! Suc j) \<noteq> 0" "node (tbl ! Suc j) = t" by auto
    define e where "e = \<lparr>count = count (tbl ! Suc j), delta = delta (tbl ! Suc j) + 1, node = node (tbl ! Suc j)\<rparr>"
    have "node (ref_fill (tbl[j := e]) j ! 0) = h \<and>
          (\<forall>i. 0 < i \<and> i < T \<longrightarrow> node (ref_fill (tbl[j := e]) j ! i) = t)"
    proof (rule Suc.IH)
      show "length (tbl[j := e]) = T" using Suc.prems(1) by simp
      show "node (tbl[j := e] ! 0) = h" "count (tbl[j := e] ! 0) \<noteq> 0"
        using Suc.prems(2,3) j0 by simp_all
      show "j \<le> T" using jT by simp
      show "\<forall>i. 0 < i \<and> i < T \<longrightarrow>
           (count (tbl[j := e] ! i) \<noteq> 0 \<and> node (tbl[j := e] ! i) = t) \<or>
           (count (tbl[j := e] ! i) = 0 \<and> i < j \<and> Suc i < T)"
      proof (intro allI impI)
        fix i assume i: "0 < i \<and> i < T"
        show "(count (tbl[j := e] ! i) \<noteq> 0 \<and> node (tbl[j := e] ! i) = t) \<or>
           (count (tbl[j := e] ! i) = 0 \<and> i < j \<and> Suc i < T)"
        proof (cases "i = j")
          case True
          then show ?thesis using nx jT Suc.prems(1) by (simp add: e_def)
        next
          case False
          then show ?thesis using Suc.prems(4) i by (auto simp: less_Suc_eq)
        qed
      qed
    qed
    then show ?thesis using True by (simp add: e_def)
  next
    case False
    have "node (ref_fill tbl j ! 0) = h \<and> (\<forall>i. 0 < i \<and> i < T \<longrightarrow> node (ref_fill tbl j ! i) = t)"
    proof (rule Suc.IH[OF Suc.prems(1,2,3)])
      show "j \<le> T" using jT by simp
      show "\<forall>i. 0 < i \<and> i < T \<longrightarrow>
           (count (tbl ! i) \<noteq> 0 \<and> node (tbl ! i) = t) \<or> (count (tbl ! i) = 0 \<and> i < j \<and> Suc i < T)"
      proof (intro allI impI)
        fix i assume i: "0 < i \<and> i < T"
        show "(count (tbl ! i) \<noteq> 0 \<and> node (tbl ! i) = t) \<or> (count (tbl ! i) = 0 \<and> i < j \<and> Suc i < T)"
        proof (cases "i = j")
          case True
          then show ?thesis using Suc.prems(4) i False by auto
        next
          case ne: False
          then show ?thesis using Suc.prems(4) i by (auto simp: less_Suc_eq)
        qed
      qed
    qed
    then show ?thesis using False by simp
  qed
qed

text \<open>The table built on a new set: bucket 0 names the head, every other bucket the tail.\<close>

lemma fresh_table_head:
  assumes g: "good s h t []" and est: "\<forall>v. 0 \<le> est v \<and> est v < 1" and T: "2 \<le> T"
  shows "\<exists>tbl. populate_shift_table s h (new_shift_table T) est T = Some (Inr tbl) \<and>
           head_table h t tbl \<and> length tbl = nat T"
proof -
  from g have L: "0 < levelmax s" and ln: "links s h t []" by (simp_all add: good_def skel_def)
  have ch: "chain s 0 h [] (Node t)" and tl: "read_next s (Node t) 0 = Inr (Null, False)"
    using ln L by (auto simp: links_def lev_def)
  let ?t0 = "new_shift_table T"
  have l0: "length ?t0 = nat T" by (simp add: new_shift_table_def)
  let ?r = "ref_build est ?t0 (Node h) (Node t) []"
  have p: "populate_shift_table s h ?t0 est T = Some (Inr ?r)"
    using populate_eq_ref[OF ch tl est T l0] by simp
  let ?t1 = "ref_seed ?t0 (Node h) (Node t)"
  have r: "?r = ref_fill ?t1 (nat T)" by (simp add: ref_build_def l0)
  have l1: "length ?t1 = nat T" by (simp add: ref_seed_def l0)
  have nT: "2 \<le> nat T" using T by simp
  have e0: "?t1 ! 0 = \<lparr>count = 1, delta = 0, node = Node h\<rparr>"
    using nT by (simp add: ref_seed_def l0 nth_list_update)
  have eT: "?t1 ! (nat T - 1) = \<lparr>count = 1, delta = 0, node = Node t\<rparr>"
    using nT by (simp add: ref_seed_def l0)
  have ei: "\<And>i. 0 < i \<Longrightarrow> i < nat T - 1 \<Longrightarrow> count (?t1 ! i) = 0"
    by (simp add: ref_seed_def new_shift_table_def)
  have "node (ref_fill ?t1 (nat T) ! 0) = Node h \<and>
        (\<forall>i. 0 < i \<and> i < nat T \<longrightarrow> node (ref_fill ?t1 (nat T) ! i) = Node t)"
  proof (rule ref_fill_head_table[OF l1])
    show "node (?t1 ! 0) = Node h" "count (?t1 ! 0) \<noteq> 0" using e0 by simp_all
    show "nat T \<le> nat T" by simp
    show "\<forall>i. 0 < i \<and> i < nat T \<longrightarrow>
           (count (?t1 ! i) \<noteq> 0 \<and> node (?t1 ! i) = Node t) \<or>
           (count (?t1 ! i) = 0 \<and> i < nat T \<and> Suc i < nat T)"
    proof (intro allI impI)
      fix i assume i: "0 < i \<and> i < nat T"
      show "(count (?t1 ! i) \<noteq> 0 \<and> node (?t1 ! i) = Node t) \<or>
           (count (?t1 ! i) = 0 \<and> i < nat T \<and> Suc i < nat T)"
      proof (cases "i = nat T - 1")
        case True
        then show ?thesis using eT by simp
      next
        case False
        then have "i < nat T - 1" using i by linarith
        then show ?thesis using ei i by simp
      qed
    qed
  qed
  then have nd: "node (?r ! 0) = Node h" "\<forall>i. 0 < i \<and> i < nat T \<longrightarrow> node (?r ! i) = Node t"
    unfolding r by blast+
  have lr: "length ?r = nat T" by (simp only: r length_ref_fill l1)
  then have "?r \<noteq> []" using nT by auto
  then have "head_table h t ?r"
    unfolding head_table_def using nd lr by simp
  then show ?thesis using p lr by blast
qed

lemma good_bump:
  assumes "good s h t ns"
  shows "good (s\<lparr>seed := y, brk := Suc (brk s)\<rparr>) h t ns"
proof -
  let ?s' = "s\<lparr>seed := y, brk := Suc (brk s)\<rparr>"
  have o: "alloc ?s' = alloc s" "nval ?s' = nval s" "ntop ?s' = ntop s" "nslots ?s' = nslots s"
    "\<forall>x j. read_next ?s' x j = read_next s x j"
    by (auto simp: fun_eq_iff alloc_def nval_def ntop_def nslots_def read_next_def deref_def
             split: ptr.splits)
  have "skel ?s' h t ns"
    using assms unfolding good_def skel_def o by (auto simp: less_Suc_eq)
  moreover have "links ?s' h t ns"
    using assms links_cong[of ?s' s h t ns] o by (simp add: good_def)
  ultimately show ?thesis by (simp add: good_def)
qed

lemma set_ins_node: "set (ins_node s v n ns) = insert n (set ns)"
  by (auto simp: ins_node_def)

text \<open>
  One call on a quiescent list of live nodes, with searches that start at the head: it
  returns what the reference set returns, and leaves such a list for the new set.
\<close>

lemma sl_step_ok:
  assumes g: "good s h t ns" and live: "\<forall>a \<in> set ns. ndel s a = 0"
    and tbl: "head_table h t tbl" "\<forall>v. 0 \<le> bucket est table_size v \<and> bucket est table_size v < int (length tbl)"
    and v: "op_val x < VAL_MAX"
  shows "\<exists>s' ns'. sl_step s est tbl table_size x = Some (Inr (fst (ref_step (nval s ` set ns) x), s')) \<and>
      good s' h t ns' \<and> (\<forall>a \<in> set ns'. ndel s' a = 0) \<and>
      nval s' ` set ns' = snd (ref_step (nval s ` set ns) x)"
proof -
  from g have sk: "skel s h t ns" by (simp add: good_def)
  have b: "\<And>v. 0 \<le> bucket est table_size v" "\<And>v. bucket est table_size v < int (length tbl)"
    using tbl(2) by auto
  show ?thesis
  proof (cases x)
    case (Contains w)
    have "(\<exists>a \<in> set ns. nval s a = w \<and> ndel s a = 0) \<longleftrightarrow> w \<in> nval s ` set ns"
      using live by auto
    then show ?thesis
      using sl_contains_ok[OF g _ tbl(1) b, of w] v Contains g live
      by (intro exI[of _ s] exI[of _ ns]) simp
  next
    case (Remove w)
    have w: "w < VAL_MAX" using v Remove by simp
    show ?thesis
    proof (cases "w \<in> nval s ` set ns")
      case False
      then have "\<not> (\<exists>a \<in> set ns. nval s a = w \<and> ndel s a = 0)" by auto
      from sl_remove_absent[OF g w tbl(1) b this] False Remove g live
      show ?thesis by (intro exI[of _ s] exI[of _ ns]) simp
    next
      case True
      then obtain d where d: "d \<in> set ns" "nval s d = w" by auto
      have dl: "ndel s d = 0" using live d by simp
      from sl_remove_present[OF g w tbl(1) b d dl] obtain s' where
        r: "sl_remove s est tbl table_size w = Some (Inr (1, s'))"
        and g': "good s' h t (filter (\<lambda>a. a \<notin> {d}) ns)"
        and o: "nval s' = nval s" "ndel s' = (ndel s)(d := 1)"
        by blast
      have "nval s ` set (filter (\<lambda>a. a \<notin> {d}) ns) = nval s ` set ns - {w}"
        using d value_unique[OF sk] by auto
      moreover have "\<forall>a \<in> set (filter (\<lambda>a. a \<notin> {d}) ns). ndel s' a = 0"
        using live o by simp
      ultimately show ?thesis
        using r g' o True Remove
        by (intro exI[of _ s'] exI[of _ "filter (\<lambda>a. a \<notin> {d}) ns"]) simp
    qed
  next
    case (Add w)
    have w: "w < VAL_MAX" using v Add by simp
    show ?thesis
    proof (cases "w \<in> nval s ` set ns")
      case True
      then obtain d where d: "d \<in> set ns" "nval s d = w" by auto
      have dl: "ndel s d = 0" using live d by simp
      let ?s' = "s\<lparr>seed := xorshift (seed s), brk := Suc (brk s)\<rparr>"
      have o: "nval ?s' = nval s" "ndel ?s' = ndel s"
        by (auto simp: fun_eq_iff nval_def ndel_def)
      have "insert w (nval s ` set ns) = nval s ` set ns" using True by auto
      then show ?thesis
        using sl_add_present[OF g w tbl(1) b d dl] good_bump[OF g] True Add live o
        by (intro exI[of _ ?s'] exI[of _ ns]) simp
    next
      case False
      then have no: "\<forall>a \<in> set ns. nval s a \<noteq> w" by auto
      from sl_add_absent[OF g w tbl(1) b no] obtain s' where
        r: "sl_add s est tbl table_size w = Some (Inr (1, s'))"
        and g': "good s' h t (ins_node s w (brk s) ns)" and nin: "brk s \<notin> set ns"
        and n: "nval s' (brk s) = w" "ndel s' (brk s) = 0"
        and o: "\<forall>a. a \<noteq> brk s \<longrightarrow> nval s' a = nval s a \<and> ndel s' a = ndel s a"
        by blast
      have same: "\<forall>a \<in> set ns. nval s' a = nval s a \<and> ndel s' a = ndel s a"
      proof
        fix a assume "a \<in> set ns"
        then have "a \<noteq> brk s" using nin by auto
        then show "nval s' a = nval s a \<and> ndel s' a = ndel s a" using o by simp
      qed
      then have "nval s' ` set ns = nval s ` set ns" by auto
      then have "nval s' ` set (ins_node s w (brk s) ns) = insert w (nval s ` set ns)"
        using n by (simp add: set_ins_node)
      moreover have "\<forall>a \<in> set (ins_node s w (brk s) ns). ndel s' a = 0"
        using same live n by (auto simp: set_ins_node)
      ultimately show ?thesis
        using r g' False Add
        by (intro exI[of _ s'] exI[of _ "ins_node s w (brk s) ns"]) simp
    qed
  qed
qed

lemma sl_run_ok:
  assumes tbl: "head_table h t tbl" "\<forall>v. 0 \<le> bucket est table_size v \<and> bucket est table_size v < int (length tbl)"
  shows "good s h t ns \<Longrightarrow> \<forall>a \<in> set ns. ndel s a = 0 \<Longrightarrow> \<forall>x \<in> set ops. op_val x < VAL_MAX \<Longrightarrow>
     \<exists>s'. sl_run s est tbl table_size ops = Some (Inr (ref_run (nval s ` set ns) ops, s'))"
proof (induction ops arbitrary: s ns)
  case Nil
  then show ?case by simp
next
  case (Cons x ops)
  have v: "op_val x < VAL_MAX" using Cons.prems(3) by simp
  from sl_step_ok[OF Cons.prems(1,2) tbl v] obtain s1 ns1 where
    st: "sl_step s est tbl table_size x = Some (Inr (fst (ref_step (nval s ` set ns) x), s1))"
    and g1: "good s1 h t ns1" and l1: "\<forall>a \<in> set ns1. ndel s1 a = 0"
    and S1: "nval s1 ` set ns1 = snd (ref_step (nval s ` set ns) x)"
    by blast
  from Cons.IH[OF g1 l1] Cons.prems(3) obtain s' where
    r: "sl_run s1 est tbl table_size ops = Some (Inr (ref_run (nval s1 ` set ns1) ops, s'))"
    by auto
  show ?case
    using st r S1 by (auto simp: split_beta)
qed

lemma bucket_in_table:
  assumes "\<forall>v. 0 \<le> est v \<and> est v < 1" "2 \<le> T" "length tbl = nat T"
  shows "\<forall>v. 0 \<le> bucket est T v \<and> bucket est T v < int (length tbl)"
proof
  fix v
  have "0 \<le> bucket est T v" "bucket est T v < T - 1"
    using bucket_range[of est v T] assms by auto
  then show "0 \<le> bucket est T v \<and> bucket est T v < int (length tbl)"
    using assms by simp
qed

lemma init_world_fresh: "levelmax (init_world lm) = lm" "\<forall>a. alloc (init_world lm) a \<longrightarrow> a < brk (init_world lm)"
  by (simp_all add: init_world_def alloc_def)

lemma sl_run_from_new_set:
  assumes "0 < lm" "2 \<le> T" "\<forall>v. 0 \<le> est v \<and> est v < 1" "\<forall>x \<in> set ops. op_val x < VAL_MAX"
  shows "\<exists>h s0 tbl s'. sl_set_new (init_world lm) = Inr (h, s0) \<and>
           populate_shift_table s0 h (new_shift_table T) est T = Some (Inr tbl) \<and>
           sl_run s0 est tbl T ops = Some (Inr (ref_run {} ops, s'))"
proof -
  let ?w = "init_world lm"
  from set_new_good[of ?w] assms(1) init_world_fresh obtain s0 where
    sn: "sl_set_new ?w = Inr (Suc (brk ?w), s0)" and g: "good s0 (Suc (brk ?w)) (brk ?w) []"
    by auto
  from fresh_table_head[OF g assms(3,2)] obtain tbl where
    p: "populate_shift_table s0 (Suc (brk ?w)) (new_shift_table T) est T = Some (Inr tbl)"
    and ht: "head_table (Suc (brk ?w)) (brk ?w) tbl" and len: "length tbl = nat T"
    by blast
  from sl_run_ok[OF ht bucket_in_table[OF assms(3,2) len] g _ assms(4)] obtain s' where
    "sl_run s0 est tbl T ops = Some (Inr (ref_run (nval s0 ` set []) ops, s'))"
    by auto
  then show ?thesis using sn p by auto
qed

section \<open>Example states\<close>

lemma table_2_head: "head_table 1 0 table_2"
  by (simp add: head_table_def table_2_def less_Suc_eq numeral_2_eq_2)

lemma table_2_bucket:
  "0 \<le> bucket (\<lambda>v. 1 / 2) 2 v" "bucket (\<lambda>v. 1 / 2) 2 v < int (length table_2)"
  by (simp_all add: bucket_def trunc_to_int_def table_2_def)

lemma new_set_4_good: "good (new_set 4) 1 0 []"
proof -
  from set_new_good[of "init_world 4"] init_world_fresh[of 4] obtain s0 where
    "sl_set_new (init_world 4) = Inr (Suc (brk (init_world 4)), s0)"
    "good s0 (Suc (brk (init_world 4))) (brk (init_world 4)) []"
    by auto
  then show ?thesis by (simp add: new_set_def init_world_def)
qed

lemma added_5_good: "good added_5 1 0 [2]" "nval added_5 2 = 5" "ndel added_5 2 = 0"
proof -
  have b: "brk (new_set 4) = 2" by code_simp
  have v: "(5::int) < VAL_MAX" by (simp add: VAL_MAX_def INT_MAX_def)
  from sl_add_absent[OF new_set_4_good v table_2_head table_2_bucket] obtain s' where
    "sl_add (new_set 4) (\<lambda>v. 1 / 2) table_2 2 5 = Some (Inr (1, s'))"
    "good s' 1 0 (ins_node (new_set 4) 5 (brk (new_set 4)) [])"
    by auto
  then show "good added_5 1 0 [2]"
    by (simp add: added_5_def world_after_def ins_node_def b)
  show "nval added_5 2 = 5" "ndel added_5 2 = 0" by code_simp+
qed

lemma flagged_5_good: "good flagged_5 1 0 [2]" "nval flagged_5 2 = 5" "ndel flagged_5 2 = 1"
proof -
  have a: "alloc added_5 2" using added_5_good(1) by (simp add: good_def skel_def)
  from set_deleted_effect[OF a] obtain s' where
    sd: "set_deleted added_5 (Node 2) = Inr s'" and e: "brk s' = brk added_5"
      "levelmax s' = levelmax added_5" "alloc s' = alloc added_5" "nval s' = nval added_5"
      "ntop s' = ntop added_5" "nslots s' = nslots added_5"
      "\<forall>x j. read_next s' x j = read_next added_5 x j"
    by blast
  have f: "flagged_5 = s'" using sd by (simp add: flagged_5_def)
  show "good flagged_5 1 0 [2]"
    unfolding f using good_cong[OF e] added_5_good(1) by simp
  show "nval flagged_5 2 = 5" "ndel flagged_5 2 = 1" by code_simp+
qed

section \<open>Searches on a store without marks\<close>

lemma unmarkedD: "unmarked s \<Longrightarrow> read_next s p i = Inr r \<Longrightarrow> \<not> snd r"
  by (cases r) (auto simp: unmarked_def)

lemma skip_marked_unmarked:
  assumes "unmarked s" and "skip_marked s i right = Some (Inr (r', rn))"
  shows "r' = right"
proof (cases "read_next s right i")
  case (Inl e)
  then show ?thesis using assms(2) by (subst (asm) skip_marked.simps) simp
next
  case (Inr x)
  then have "\<not> snd x" using assms(1) by (auto dest: unmarkedD)
  then show ?thesis using assms(2) Inr by (subst (asm) skip_marked.simps) (simp add: is_marked_def)
qed

lemma find_pair_unmarked:
  assumes "find_pair s v i left lnx right = Some y"
  shows "unmarked s \<Longrightarrow> lnx = right \<Longrightarrow> y = Inr (l', lnx', r') \<Longrightarrow> lnx' = r'"
  using assms
proof (induction arbitrary: l' lnx' r' rule: find_pair.raw_induct[rotated 1, consumes 1])
  case (1 find_pair s v i left lnx right y)
  from "1.prems"(1) "1.hyps" obtain right' rn where
    sm: "skip_marked s i right = Some (Inr (right', rn))"
    using "1.prems"(3)
    by (auto split: option.splits sum.splits prod.splits if_splits)
  have eq: "right' = right" by (rule skip_marked_unmarked[OF "1.prems"(1) sm])
  from "1.hyps" sm "1.prems"(3) obtain n where n: "deref s right' = Inr n"
    by (auto split: sum.splits if_splits)
  show ?case
  proof (cases "v \<le> val n")
    case True
    then show ?thesis using "1.hyps" sm n "1.prems"(2,3) eq by auto
  next
    case False
    then have "find_pair s v i right' rn rn = Some y" using "1.hyps" sm n by simp
    from "1.IH"[OF this "1.prems"(1) refl "1.prems"(3)] show ?thesis .
  qed
qed

lemma search_levels_unmarked:
  "unmarked s \<Longrightarrow> search_levels v n s left pa sa = Some (Inr (again, s', pa', sa')) \<Longrightarrow> s' = s"
proof (induction n arbitrary: left pa sa)
  case 0
  then show ?case by simp
next
  case (Suc i)
  from Suc.prems(2) obtain x where x: "read_next s left i = Inr x"
    by (auto split: sum.splits)
  have nm: "\<not> is_marked x" using Suc.prems(1) x by (auto dest: unmarkedD simp: is_marked_def)
  from Suc.prems(2) x nm obtain l' lnx' r where
    fp: "find_pair s v i left (fst x) (fst x) = Some (Inr (l', lnx', r))"
    by (auto split: option.splits sum.splits)
  have e: "lnx' = r" by (rule find_pair_unmarked[OF fp Suc.prems(1) refl refl])
  from Suc.prems(2) x nm fp e obtain pa1 sa1 where
    "search_levels v i s l' pa1 sa1 = Some (Inr (again, s', pa', sa'))"
    by (auto split: sum.splits)
  then show ?case by (rule Suc.IH[OF Suc.prems(1)])
qed

lemma fraser_search_unmarked:
  assumes "fraser_search s v pa sa est tbl table_size = Some y"
  shows "unmarked s \<Longrightarrow> y = Inr (s', pa', sa') \<Longrightarrow> s' = s"
  using assms
proof (induction arbitrary: s' pa' sa' rule: fraser_search.raw_induct[rotated 1, consumes 1])
  case (1 fraser_search s v pa sa est tbl table_size y)
  from "1.hyps" "1.prems"(2) obtain left n again s1 pa1 sa1 where
    sl: "search_levels v (toplevel n) s left pa sa = Some (Inr (again, s1, pa1, sa1))"
    and st: "shortcut_start s est tbl table_size v = Inr left" "deref s left = Inr n"
    by (auto split: option.splits sum.splits)
  have s1: "s1 = s" by (rule search_levels_unmarked[OF "1.prems"(1) sl])
  show ?case
  proof (cases again)
    case True
    then have "fraser_search s v pa1 sa1 est tbl table_size = Some y"
      using "1.hyps" sl st s1 by simp
    from "1.IH"[OF this "1.prems"(1,2)] show ?thesis .
  next
    case False
    then show ?thesis using "1.hyps" sl st s1 "1.prems"(2) by simp
  qed
qed

lemma unmarked_new_node:
  assumes "unmarked s"
  shows "unmarked (snd (sl_new_simple_node (snd (get_rand_level s)) v (fst (get_rand_level s))))"
  unfolding unmarked_def
proof (intro allI impI)
  fix p i r
  let ?s2 = "snd (sl_new_simple_node (snd (get_rand_level s)) v (fst (get_rand_level s)))"
  assume a: "read_next ?s2 p i = Inr r"
  have "read_next s p i = Inr r"
    using a
    by (cases p)
       (auto simp: read_next_def deref_def sl_new_simple_node_def get_rand_level_def Let_def
             split: if_splits option.splits)
  then show "\<not> snd r" using assms by (auto dest: unmarkedD)
qed

text \<open>
  \<open>sl_add\<close> whose search ends on a live node with the value \<open>v\<close>, for any store, table and
  estimator: the result is 0, the node allocated first is freed, and on a store without
  marks nothing else has changed.
\<close>

lemma sl_add_found_live:
  fixes s :: world and v :: int
  defines "s2 \<equiv> snd (sl_new_simple_node (snd (get_rand_level s)) v (fst (get_rand_level s)))"
  assumes fs: "fraser_search s2 v (Some (replicate (levelmax s) None)) (Some (replicate (levelmax s) None))
                 est tbl table_size = Some (Inr (s3, preds, succs))"
    and found: "arr_get succs 0 = Inr p" "deref s3 p = Inr sn" "val sn = v" "deleted sn = 0"
  shows "sl_add s est tbl table_size v = Some (Inr (0, sl_delete_node s3 (brk s)))"
    and "heap (sl_delete_node s3 (brk s)) (brk s) = None"
    and "unmarked s \<Longrightarrow> heap s (brk s) = None \<Longrightarrow> heap (sl_delete_node s3 (brk s)) = heap s"
proof -
  obtain lvl s1 where rl: "get_rand_level s = (lvl, s1)" by (cases "get_rand_level s")
  have s1: "s1 = s\<lparr>seed := xorshift (seed s)\<rparr>"
    using rl by (auto simp: get_rand_level_def Let_def)
  have nsn: "sl_new_simple_node s1 v lvl = (brk s, s2)"
    using rl by (simp add: s2_def sl_new_simple_node_def s1)
  have lm: "levelmax s2 = levelmax s" by (simp add: s2_def sl_new_simple_node_def rl s1)
  have "sl_add_retry s2 est tbl table_size v (brk s) (Some (replicate (levelmax s) None))
          (Some (replicate (levelmax s) None)) = Some (Inr (0, sl_delete_node s3 (brk s)))"
    by (subst sl_add_retry.simps) (simp add: fs found)
  then show "sl_add s est tbl table_size v = Some (Inr (0, sl_delete_node s3 (brk s)))"
    unfolding sl_add_def by (simp add: rl nsn lm)
  show "heap (sl_delete_node s3 (brk s)) (brk s) = None" by (simp add: sl_delete_node_def)
  assume um: "unmarked s" and fr: "heap s (brk s) = None"
  have "unmarked s2" unfolding s2_def by (rule unmarked_new_node[OF um])
  from fraser_search_unmarked[OF fs this refl] have "s3 = s2" .
  then have "heap (sl_delete_node s3 (brk s)) = (heap s)(brk s := None)"
    by (simp add: sl_delete_node_def s2_def sl_new_simple_node_def rl s1)
  then show "heap (sl_delete_node s3 (brk s)) = heap s" using fr by (simp add: fun_upd_idem)
qed

text \<open>
  On a quiescent list the first search of \<open>sl_add\<close>, from the head, ends on the live node
  that carries the value, and changes nothing.
\<close>

lemma search_finds_live:
  fixes s :: world and v :: int
  defines "s2 \<equiv> snd (sl_new_simple_node (snd (get_rand_level s)) v (fst (get_rand_level s)))"
  assumes g: "good s h t ns"
    and tbl: "head_table h t tbl" "0 \<le> bucket est table_size v" "bucket est table_size v < int (length tbl)"
    and d: "d \<in> set ns" "nval s d = v" "ndel s d = 0"
  shows "\<exists>preds succs n.
           fraser_search s2 v (Some (replicate (levelmax s) None)) (Some (replicate (levelmax s) None))
             est tbl table_size = Some (Inr (s2, preds, succs)) \<and>
           arr_get succs 0 = Inr (Node d) \<and> deref s2 (Node d) = Inr n \<and> val n = v \<and> deleted n = 0"
proof -
  have v: "v < VAL_MAX" using g d by (auto simp: good_def skel_def)
  have L: "0 < levelmax s" using g by (auto simp: good_def skel_def)
  from get_rand_level_range[OF L] obtain lvl where
    rl: "get_rand_level s = (lvl, s\<lparr>seed := xorshift (seed s)\<rparr>)" and lvl: "0 < lvl" "lvl \<le> levelmax s"
    by blast
  let ?s1 = "s\<lparr>seed := xorshift (seed s)\<rparr>"
  have g1: "good ?s1 h t ns"
    using g good_cong[of ?s1 s h t ns] by (simp add: seed_update_obs)
  have s2: "s2 = snd (sl_new_simple_node ?s1 v lvl)" by (simp add: s2_def rl)
  note al = new_simple_node_good[OF g1 s2, simplified]
  have g2: "good s2 h t ns" by (rule al(2))
  then have sk2: "skel s2 h t ns" and ln2: "links s2 h t ns" by (simp_all add: good_def)
  have lm2: "levelmax s2 = levelmax s" using al(11) by simp
  have dn: "d \<noteq> brk s" using al(8) d(1) by auto
  have d2: "nval s2 d = v" "ndel s2 d = 0"
    using al(14)[OF dn] d by (simp_all add: seed_update_obs)
  let ?arr = "Some (replicate (levelmax s2) None)"
  from fraser_search_ok[where M = "{}" and pa = ?arr and sa = ?arr, OF sk2 v _ links_part_links[OF ln2] tbl]
  have fs: "fraser_search s2 v ?arr ?arr est tbl table_size =
      Some (Inr (s2, arr_fill (levelmax s2) (pred_at s2 h v ns) ?arr,
                 arr_fill (levelmax s2) (succ_at s2 t v ns) ?arr))"
    by (auto simp: arr_ok_def)
  from succ0_member[OF sk2 v] obtain r where r: "succ_at s2 t v ns 0 = Node r" "alloc s2 r"
    "nval s2 r = v \<longleftrightarrow> (\<exists>a \<in> set ns. nval s2 a = v)" "nval s2 r = v \<longrightarrow> r \<in> set ns"
    by blast
  have rd: "r = d" using r(3,4) d(1) d2 value_unique[OF sk2, of r d] by auto
  from deref_alloc[OF r(2)] obtain n where n: "deref s2 (Node d) = Inr n" "val n = v" "deleted n = 0"
    using rd d2 by auto
  have ag: "arr_get (arr_fill (levelmax s2) (succ_at s2 t v ns) ?arr) 0 = Inr (Node d)"
    using arr_get_fresh_fill[of 0 "levelmax s2" "succ_at s2 t v ns"] L lm2 r(1) rd by simp
  show ?thesis using fs ag n unfolding lm2 by blast
qed

lemma added_5_unmarked: "unmarked added_5" "heap added_5 (brk added_5) = None"
proof -
  let ?ok = "\<lambda>a. case heap added_5 a of None \<Rightarrow> True
                 | Some n \<Rightarrow> list_all (\<lambda>r. case r of None \<Rightarrow> True | Some x \<Rightarrow> \<not> snd x) (nexts n)"
  have b: "brk added_5 = 3" by code_simp
  have c: "?ok 0" "?ok 1" "?ok 2" by code_simp+
  have bound: "\<And>a. alloc added_5 a \<Longrightarrow> a < 3"
    using added_5_good(1) b by (auto simp: good_def skel_def)
  show "heap added_5 (brk added_5) = None"
    using bound[of "brk added_5"] b by (cases "heap added_5 3") (auto simp: alloc_def)
  show "unmarked added_5"
    unfolding unmarked_def
  proof (intro allI impI)
    fix p i r
    assume a: "read_next added_5 p i = Inr r"
    then obtain a' n where p: "p = Node a'" and h: "heap added_5 a' = Some n"
      and i: "i < length (nexts n)" and r: "nexts n ! i = Some r"
      by (cases p) (auto simp: read_next_def deref_def split: option.splits if_splits)
    have "alloc added_5 a'" using h by (simp add: alloc_def)
    then have "a' < 3" by (rule bound)
    then have "a' = 0 \<or> a' = 1 \<or> a' = 2" by arith
    then have "?ok a'" using c by auto
    then have "list_all (\<lambda>r. case r of None \<Rightarrow> True | Some x \<Rightarrow> \<not> snd x) (nexts n)"
      using h by simp
    then show "\<not> snd r" using i r by (cases r) (auto simp: list_all_length split: option.splits)
  qed
qed

section \<open>Properties of the operations\<close>

text \<open>
  C1 (amended). For values below \<open>VAL_MAX\<close>, the value of the tail sentinel, and with the
  shift table built on the new set (table size \<open>T \<ge> 2\<close>, estimator with values in
  \<open>[0,1)\<close>, \<open>levelmax > 0\<close>): creating the set and building the table succeed, and every
  sequence of \<open>sl_add\<close>, \<open>sl_remove\<close> and \<open>sl_contains\<close> calls runs to its end and returns
  the results of the same sequence on the reference set, starting from the empty set.
\<close>

theorem sl_run_matches_reference:
  assumes "0 < lm" "2 \<le> T" "\<forall>v. 0 \<le> est v \<and> est v < 1" "\<forall>x \<in> set ops. op_val x < VAL_MAX"
  shows "\<exists>h s0 tbl s'. sl_set_new (init_world lm) = Inr (h, s0) \<and>
           populate_shift_table s0 h (new_shift_table T) est T = Some (Inr tbl) \<and>
           sl_run s0 est tbl T ops = Some (Inr (ref_run {} ops, s'))"
  using assms by (rule sl_run_from_new_set)

theorem sl_run_matches_reference_witness:
  "\<exists>h s0 tbl s'. sl_set_new (init_world 4) = Inr (h, s0) \<and>
     populate_shift_table s0 h (new_shift_table 2) (\<lambda>v. 1 / 2) 2 = Some (Inr tbl) \<and>
     sl_run s0 (\<lambda>v. 1 / 2) tbl 2 [Add 5, Contains 5, Add 5, Remove 5, Contains 5, Remove 3] =
       Some (Inr ([1, 1, 0, 1, 0, 0], s'))"
  using sl_run_matches_reference [of 4 2 "\<lambda>v. 1 / 2" "[Add 5, Contains 5, Add 5, Remove 5, Contains 5, Remove 3]"]
  by (simp add: VAL_MAX_def INT_MAX_def)

text \<open>
  C1 as stated fails at the value \<open>VAL_MAX\<close>: on the new set \<open>sl_contains\<close> finds the tail
  sentinel and answers 1, where the reference set, being empty, answers 0.
\<close>

theorem sl_contains_tail_value_counterexample:
  "populate_shift_table (new_set 4) 1 (new_shift_table 2) (\<lambda>v. 1 / 2) 2 = Some (Inr table_2) \<and>
   results_of (sl_run (new_set 4) (\<lambda>v. 1 / 2) table_2 2 [Contains VAL_MAX]) = Some [1] \<and>
   ref_run {} [Contains VAL_MAX] = [0]"
  by code_simp

text \<open>
  C6. \<open>sl_add\<close> allocates its node, at the address \<open>brk s\<close>, and then searches. For every
  store, table and estimator: when that search ends with a live node carrying \<open>v\<close> in
  \<open>succs[0]\<close>, \<open>sl_add\<close> returns 0 and frees the node it allocated; on a store without
  marked forward references the heap after the call is the heap before it. On a quiescent
  list (the states of sequential execution, with searches that start at the head) and for a
  value that a live node \<open>d\<close> of the list carries, \<open>sl_add\<close> does return 0, the store is the
  one before the call, and the list holds the same nodes \<open>ns\<close> with the same links.
\<close>

theorem sl_add_already_present:
  "(fraser_search (snd (sl_new_simple_node (snd (get_rand_level s)) v (fst (get_rand_level s)))) v
        (Some (replicate (levelmax s) None)) (Some (replicate (levelmax s) None))
        est tbl table_size = Some (Inr (sf, preds, succs)) \<and>
      arr_get succs 0 = Inr p \<and> deref sf p = Inr sn \<and> val sn = v \<and> deleted sn = 0 \<longrightarrow>
        sl_add s est tbl table_size v = Some (Inr (0, sl_delete_node sf (brk s))) \<and>
        heap (sl_delete_node sf (brk s)) (brk s) = None \<and>
        (unmarked s \<and> heap s (brk s) = None \<longrightarrow> heap (sl_delete_node sf (brk s)) = heap s)) \<and>
   (good s h t ns \<and> head_table h t tbl \<and>
      0 \<le> bucket est table_size v \<and> bucket est table_size v < int (length tbl) \<and>
      d \<in> set ns \<and> nval s d = v \<and> ndel s d = 0 \<longrightarrow>
        (\<exists>s'. sl_add s est tbl table_size v = Some (Inr (0, s')) \<and>
           fst (sl_new_simple_node (snd (get_rand_level s)) v (fst (get_rand_level s))) = brk s \<and>
           heap s' (brk s) = None \<and> heap s' = heap s \<and> good s' h t ns))"
proof (intro conjI impI)
  assume a: "fraser_search (snd (sl_new_simple_node (snd (get_rand_level s)) v (fst (get_rand_level s)))) v
        (Some (replicate (levelmax s) None)) (Some (replicate (levelmax s) None))
        est tbl table_size = Some (Inr (sf, preds, succs)) \<and>
      arr_get succs 0 = Inr p \<and> deref sf p = Inr sn \<and> val sn = v \<and> deleted sn = 0"
  then have fs: "fraser_search (snd (sl_new_simple_node (snd (get_rand_level s)) v (fst (get_rand_level s)))) v
        (Some (replicate (levelmax s) None)) (Some (replicate (levelmax s) None))
        est tbl table_size = Some (Inr (sf, preds, succs))"
    and f: "arr_get succs 0 = Inr p" "deref sf p = Inr sn" "val sn = v" "deleted sn = 0"
    by simp_all
  show "sl_add s est tbl table_size v = Some (Inr (0, sl_delete_node sf (brk s)))"
    by (rule sl_add_found_live(1)[OF fs f])
  show "heap (sl_delete_node sf (brk s)) (brk s) = None"
    by (rule sl_add_found_live(2)[OF fs f])
  assume "unmarked s \<and> heap s (brk s) = None"
  then show "heap (sl_delete_node sf (brk s)) = heap s"
    using sl_add_found_live(3)[OF fs f] by simp
next
  assume b: "good s h t ns \<and> head_table h t tbl \<and>
      0 \<le> bucket est table_size v \<and> bucket est table_size v < int (length tbl) \<and>
      d \<in> set ns \<and> nval s d = v \<and> ndel s d = 0"
  then have g: "good s h t ns" and tb: "head_table h t tbl" "0 \<le> bucket est table_size v"
      "bucket est table_size v < int (length tbl)" and d: "d \<in> set ns" "nval s d = v" "ndel s d = 0"
    by simp_all
  have v: "v < VAL_MAX" using g d by (auto simp: good_def skel_def)
  let ?s' = "s\<lparr>seed := xorshift (seed s), brk := Suc (brk s)\<rparr>"
  have r: "sl_add s est tbl table_size v = Some (Inr (0, ?s'))"
    by (rule sl_add_present[OF g v tb d])
  have "\<not> alloc s (brk s)" using g by (auto simp: good_def skel_def)
  then have "heap ?s' (brk s) = None" by (simp add: alloc_def)
  moreover have "fst (sl_new_simple_node (snd (get_rand_level s)) v (fst (get_rand_level s))) = brk s"
    by (simp add: sl_new_simple_node_def get_rand_level_def Let_def)
  ultimately show "\<exists>s'. sl_add s est tbl table_size v = Some (Inr (0, s')) \<and>
           fst (sl_new_simple_node (snd (get_rand_level s)) v (fst (get_rand_level s))) = brk s \<and>
           heap s' (brk s) = None \<and> heap s' = heap s \<and> good s' h t ns"
    using r good_bump[OF g] by (intro exI[of _ ?s']) simp
qed

theorem sl_add_already_present_witness:
  "(\<exists>sf preds succs sn.
      fraser_search (snd (sl_new_simple_node (snd (get_rand_level added_5)) 5 (fst (get_rand_level added_5)))) 5
        (Some (replicate (levelmax added_5) None)) (Some (replicate (levelmax added_5) None))
        (\<lambda>v. 1 / 2) table_2 2 = Some (Inr (sf, preds, succs)) \<and>
      arr_get succs 0 = Inr (Node 2) \<and> deref sf (Node 2) = Inr sn \<and> val sn = 5 \<and> deleted sn = 0 \<and>
      sl_add added_5 (\<lambda>v. 1 / 2) table_2 2 5 = Some (Inr (0, sl_delete_node sf (brk added_5))) \<and>
      heap (sl_delete_node sf (brk added_5)) (brk added_5) = None \<and>
      unmarked added_5 \<and> heap added_5 (brk added_5) = None \<and>
      heap (sl_delete_node sf (brk added_5)) = heap added_5) \<and>
   good added_5 1 0 [2] \<and> head_table 1 0 table_2 \<and>
   0 \<le> bucket (\<lambda>v. 1 / 2) 2 5 \<and> bucket (\<lambda>v. 1 / 2) 2 5 < int (length table_2) \<and>
   2 \<in> set [2::nat] \<and> nval added_5 2 = 5 \<and> ndel added_5 2 = 0 \<and>
   (\<exists>s'. sl_add added_5 (\<lambda>v. 1 / 2) table_2 2 5 = Some (Inr (0, s')) \<and>
     fst (sl_new_simple_node (snd (get_rand_level added_5)) 5 (fst (get_rand_level added_5))) = brk added_5 \<and>
     heap s' (brk added_5) = None \<and> heap s' = heap added_5 \<and> good s' 1 0 [2])"
proof -
  have m: "2 \<in> set [2::nat]" by simp
  from search_finds_live[OF added_5_good(1) table_2_head table_2_bucket m added_5_good(2,3)]
  obtain preds succs sn where
    fs: "fraser_search (snd (sl_new_simple_node (snd (get_rand_level added_5)) 5 (fst (get_rand_level added_5)))) 5
        (Some (replicate (levelmax added_5) None)) (Some (replicate (levelmax added_5) None))
        (\<lambda>v. 1 / 2) table_2 2 =
        Some (Inr (snd (sl_new_simple_node (snd (get_rand_level added_5)) 5 (fst (get_rand_level added_5))),
                   preds, succs))"
    and f: "arr_get succs 0 = Inr (Node 2)"
      "deref (snd (sl_new_simple_node (snd (get_rand_level added_5)) 5 (fst (get_rand_level added_5))))
         (Node 2) = Inr sn"
      "val sn = 5" "deleted sn = 0"
    by blast
  note t = sl_add_already_present [where s = added_5 and v = 5 and est = "\<lambda>v. 1 / 2" and tbl = table_2
      and table_size = 2 and preds = preds and succs = succs and p = "Node 2" and sn = sn
      and sf = "snd (sl_new_simple_node (snd (get_rand_level added_5)) 5 (fst (get_rand_level added_5)))"
      and h = 1 and t = 0 and ns = "[2]" and d = 2]
  have A: "sl_add added_5 (\<lambda>v. 1 / 2) table_2 2 5 = Some (Inr (0, sl_delete_node
        (snd (sl_new_simple_node (snd (get_rand_level added_5)) 5 (fst (get_rand_level added_5)))) (brk added_5))) \<and>
      heap (sl_delete_node
        (snd (sl_new_simple_node (snd (get_rand_level added_5)) 5 (fst (get_rand_level added_5)))) (brk added_5))
        (brk added_5) = None \<and>
      heap (sl_delete_node
        (snd (sl_new_simple_node (snd (get_rand_level added_5)) 5 (fst (get_rand_level added_5)))) (brk added_5))
        = heap added_5"
    using t fs f added_5_unmarked by blast
  have B: "\<exists>s'. sl_add added_5 (\<lambda>v. 1 / 2) table_2 2 5 = Some (Inr (0, s')) \<and>
     fst (sl_new_simple_node (snd (get_rand_level added_5)) 5 (fst (get_rand_level added_5))) = brk added_5 \<and>
     heap s' (brk added_5) = None \<and> heap s' = heap added_5 \<and> good s' 1 0 [2]"
    using t added_5_good table_2_head table_2_bucket m by blast
  show ?thesis
    using A B fs f added_5_unmarked added_5_good table_2_head table_2_bucket m by blast
qed

text \<open>
  Adding a value whose node carries the \<open>deleted\<close> flag, with searches that start at the
  head. The simple list clears the flag of that node \<open>c\<close> and returns 1, with no allocation
  and no other change of the store; the skip list (on a quiescent list) returns 1 too, but
  leaves the old node \<open>d\<close> deleted, with all its forward references marked and off the
  list, and the list holds \<open>v\<close> in the node allocated by this call, at the address \<open>brk s\<close>,
  which is not \<open>d\<close>.
\<close>

lemma add_deleted_from_head:
  assumes "list_shortcut_start ls lest ltbl lsize v = Inr p0"
    and "list_deref ls (Node sh) = Inr hn"
    and "list_scan ls v (Node sh) (lnext hn) = Some (Inr (pred, Node c))"
    and "lheap ls c = Some cn" and "lval cn = v" and "ldeleted cn"
    and "good s h t ns" and "head_table h t tbl"
    and "0 \<le> bucket est table_size v" and "bucket est table_size v < int (length tbl)"
    and "d \<in> set ns" and "nval s d = v" and "ndel s d \<noteq> 0"
  shows "list_sl_add ls sh lest ltbl lsize v =
           Some (Inr (1, ls\<lparr>lheap := (lheap ls)(c \<mapsto> cn\<lparr>ldeleted := False\<rparr>)\<rparr>)) \<and>
         (\<exists>s'. sl_add s est tbl table_size v = Some (Inr (1, s')) \<and>
            alloc s' d \<and> ndel s' d = ndel s d \<and>
            (\<forall>j < ntop s d. \<exists>q. read_next s' (Node d) j = Inr (q, True)) \<and>
            good s' h t (ins_node s v (brk s) (filter (\<lambda>a. a \<notin> {d}) ns)) \<and>
            brk s \<noteq> d \<and> \<not> alloc s (brk s) \<and> alloc s' (brk s) \<and>
            nval s' (brk s) = v \<and> ndel s' (brk s) = 0)"
proof
  show "list_sl_add ls sh lest ltbl lsize v =
           Some (Inr (1, ls\<lparr>lheap := (lheap ls)(c \<mapsto> cn\<lparr>ldeleted := False\<rparr>)\<rparr>))"
    using assms(1-6) by (simp add: list_sl_add_def list_deref_def list_set_deleted_def)
next
  have v: "v < VAL_MAX" using assms(7,11,12) by (auto simp: good_def skel_def)
  from sl_add_deleted[OF assms(7) v assms(8-13)]
  show "\<exists>s'. sl_add s est tbl table_size v = Some (Inr (1, s')) \<and>
            alloc s' d \<and> ndel s' d = ndel s d \<and>
            (\<forall>j < ntop s d. \<exists>q. read_next s' (Node d) j = Inr (q, True)) \<and>
            good s' h t (ins_node s v (brk s) (filter (\<lambda>a. a \<notin> {d}) ns)) \<and>
            brk s \<noteq> d \<and> \<not> alloc s (brk s) \<and> alloc s' (brk s) \<and>
            nval s' (brk s) = v \<and> ndel s' (brk s) = 0"
    by blast
qed

lemma add_deleted_from_head_example:
  "list_sl_add list_removed_5 1 (\<lambda>v. 0) list_table_1 1 5 =
     Some (Inr (1, list_removed_5\<lparr>lheap := (lheap list_removed_5)
        (2 \<mapsto> \<lparr>lval = 5, ldeleted = True, lnext = Node 0\<rparr>\<lparr>ldeleted := False\<rparr>)\<rparr>)) \<and>
   (\<exists>s'. sl_add flagged_5 (\<lambda>v. 1 / 2) table_2 2 5 = Some (Inr (1, s')) \<and>
      alloc s' 2 \<and> ndel s' 2 = ndel flagged_5 2 \<and>
      (\<forall>j < ntop flagged_5 2. \<exists>q. read_next s' (Node 2) j = Inr (q, True)) \<and>
      good s' 1 0 (ins_node flagged_5 5 (brk flagged_5) (filter (\<lambda>a. a \<notin> {2}) [2])) \<and>
      brk flagged_5 \<noteq> 2 \<and> \<not> alloc flagged_5 (brk flagged_5) \<and> alloc s' (brk flagged_5) \<and>
      nval s' (brk flagged_5) = 5 \<and> ndel s' (brk flagged_5) = 0)"
proof -
  have a: "list_shortcut_start list_removed_5 (\<lambda>v. 0) list_table_1 1 5 = Inr (Node 1)"
    by code_simp
  have b: "list_deref list_removed_5 (Node 1) = Inr \<lparr>lval = VAL_MIN, ldeleted = False, lnext = Node 2\<rparr>"
    by code_simp
  have c: "list_scan list_removed_5 5 (Node 1) (lnext \<lparr>lval = VAL_MIN, ldeleted = False, lnext = Node 2\<rparr>) =
       Some (Inr (Node 1, Node 2))"
    by code_simp
  have d: "lheap list_removed_5 2 = Some \<lparr>lval = 5, ldeleted = True, lnext = Node 0\<rparr>"
    by code_simp
  have n: "ndel flagged_5 2 \<noteq> 0" using flagged_5_good(3) by simp
  show ?thesis
    using add_deleted_from_head [OF a b c d _ _ flagged_5_good(1) table_2_head table_2_bucket _
        flagged_5_good(2) n]
    by simp
qed


end
